theory Spec2Isabelle
  imports Complex_Main
begin

section \<open>Floating-point values\<close>

text \<open>
  A \<^verbatim>\<open>FloatArray\<close> entry is an IEEE value: a finite number, one of the two infinities
  (the source writes \<^verbatim>\<open>jnp.inf\<close> itself) or NaN.  Finite values are exact reals here:
  rounding and the sign of zero are not modelled.  Comparisons with NaN are false,
  \<open>0 * inf\<close>, \<open>inf - inf\<close>, \<open>0 / 0\<close> and \<open>inf / inf\<close> are NaN, and a non-zero number
  divided by zero is an infinity.
\<close>

datatype fval = NaN | NInf | Fin real | PInf

fun fl_less :: "fval \<Rightarrow> fval \<Rightarrow> bool" where
  "fl_less NaN b = False"
| "fl_less a NaN = False"
| "fl_less a NInf = False"
| "fl_less NInf b = True"
| "fl_less PInf b = False"
| "fl_less (Fin a) PInf = True"
| "fl_less (Fin a) (Fin b) = (a < b)"

definition fl_eq :: "fval \<Rightarrow> fval \<Rightarrow> bool" where
  "fl_eq a b = (a \<noteq> NaN \<and> b \<noteq> NaN \<and> a = b)"

definition fl_le :: "fval \<Rightarrow> fval \<Rightarrow> bool" where
  "fl_le a b = (fl_less a b \<or> fl_eq a b)"

definition fl_greater :: "fval \<Rightarrow> fval \<Rightarrow> bool" where
  "fl_greater a b = fl_less b a"

definition fl_ge :: "fval \<Rightarrow> fval \<Rightarrow> bool" where
  "fl_ge a b = fl_le b a"

fun isfinite :: "fval \<Rightarrow> bool" where
  "isfinite (Fin a) = True"
| "isfinite a = False"

fun fl_neg :: "fval \<Rightarrow> fval" where
  "fl_neg NaN = NaN"
| "fl_neg NInf = PInf"
| "fl_neg PInf = NInf"
| "fl_neg (Fin a) = Fin (- a)"

fun fl_add :: "fval \<Rightarrow> fval \<Rightarrow> fval" where
  "fl_add NaN b = NaN"
| "fl_add a NaN = NaN"
| "fl_add PInf NInf = NaN"
| "fl_add NInf PInf = NaN"
| "fl_add PInf b = PInf"
| "fl_add NInf b = NInf"
| "fl_add (Fin a) PInf = PInf"
| "fl_add (Fin a) NInf = NInf"
| "fl_add (Fin a) (Fin b) = Fin (a + b)"

definition fl_sub :: "fval \<Rightarrow> fval \<Rightarrow> fval" where
  "fl_sub a b = fl_add a (fl_neg b)"

text \<open>The sign of a value: \<open>-1\<close>, \<open>0\<close> or \<open>1\<close> (\<open>0\<close> also for NaN, which is handled before).\<close>

fun fl_sign :: "fval \<Rightarrow> int" where
  "fl_sign NaN = 0"
| "fl_sign NInf = - 1"
| "fl_sign PInf = 1"
| "fl_sign (Fin a) = (if a < 0 then - 1 else if a = 0 then 0 else 1)"

definition fl_inf :: "int \<Rightarrow> fval" where
  "fl_inf s = (if s < 0 then NInf else PInf)"

fun fl_mul :: "fval \<Rightarrow> fval \<Rightarrow> fval" where
  "fl_mul NaN b = NaN"
| "fl_mul a NaN = NaN"
| "fl_mul (Fin a) (Fin b) = Fin (a * b)"
| "fl_mul a b = (if fl_sign a * fl_sign b = 0 then NaN else fl_inf (fl_sign a * fl_sign b))"

fun fl_div :: "fval \<Rightarrow> fval \<Rightarrow> fval" where
  "fl_div NaN b = NaN"
| "fl_div a NaN = NaN"
| "fl_div (Fin a) (Fin b) =
     (if b = 0 then (if a = 0 then NaN else fl_inf (fl_sign (Fin a))) else Fin (a / b))"
| "fl_div (Fin a) b = Fin 0"
| "fl_div a (Fin b) = fl_inf (fl_sign a * (if b < 0 then - 1 else 1))"
| "fl_div a b = NaN"

text \<open>\<^verbatim>\<open>jnp.minimum\<close> and \<^verbatim>\<open>jnp.maximum\<close> propagate NaN.\<close>

definition minimum :: "fval \<Rightarrow> fval \<Rightarrow> fval" where
  "minimum a b = (if a = NaN \<or> b = NaN then NaN else if fl_less b a then b else a)"

definition maximum :: "fval \<Rightarrow> fval \<Rightarrow> fval" where
  "maximum a b = (if a = NaN \<or> b = NaN then NaN else if fl_less a b then b else a)"

datatype error = ValueError | NotImplementedError | ZeroDivisionError

text \<open>
  \<^verbatim>\<open>jnp.min\<close> and \<^verbatim>\<open>jnp.max\<close> reduce a whole array; on an array of size zero they
  raise (the reduction has no identity).
\<close>

fun jnp_min :: "fval list \<Rightarrow> error + fval" where
  "jnp_min [] = Inl ValueError"
| "jnp_min (x # xs) = Inr (foldl minimum x xs)"

fun jnp_max :: "fval list \<Rightarrow> error + fval" where
  "jnp_max [] = Inl ValueError"
| "jnp_max (x # xs) = Inr (foldl maximum x xs)"

text \<open>\<^verbatim>\<open>jnp.where(c, x, y)\<close> on one entry.\<close>

definition where_sel :: "bool \<Rightarrow> 'a \<Rightarrow> 'a \<Rightarrow> 'a" where
  "where_sel c x y = (if c then x else y)"

section \<open>The environment: pseudorandom primitives and the model\<close>

text \<open>
  The library primitives the samplers call are parameters of the embedding, each a pure
  function of the key it is given, as in the library: \<open>subkey env key n i\<close> is entry \<open>i\<close>
  of \<^verbatim>\<open>random.split(key, n)\<close>, \<open>random_uniform env key lo hi\<close> is
  \<^verbatim>\<open>random.uniform(key, minval=lo, maxval=hi)\<close>, \<open>random_normal env key n\<close> is
  \<^verbatim>\<open>random.normal(key, shape=(n,))\<close>, \<open>linalg_norm\<close> is \<^verbatim>\<open>jnp.linalg.norm\<close> and
  \<open>finfo_eps\<close> is \<^verbatim>\<open>jnp.finfo(dtype).eps\<close>.  The model gives \<open>model_forward\<close>
  (\<^verbatim>\<open>model.forward\<close>) and its gradient \<open>grad_forward\<close> (\<^verbatim>\<open>jax.grad(model.forward)\<close>).
\<close>

record 'k env =
  subkey :: "'k \<Rightarrow> nat \<Rightarrow> nat \<Rightarrow> 'k"
  random_uniform :: "'k \<Rightarrow> fval \<Rightarrow> fval \<Rightarrow> fval"
  random_normal :: "'k \<Rightarrow> nat \<Rightarrow> fval list"
  linalg_norm :: "fval list \<Rightarrow> fval"
  finfo_eps :: real
  model_forward :: "fval list \<Rightarrow> fval"
  grad_forward :: "fval list \<Rightarrow> fval list"

definition random_split :: "'k env \<Rightarrow> 'k \<Rightarrow> nat \<Rightarrow> 'k list" where
  "random_split env key n = map (subkey env key n) [0..<n]"

definition split3 :: "'k env \<Rightarrow> 'k \<Rightarrow> 'k \<times> 'k \<times> 'k" where
  "split3 env key = (subkey env key 3 0, subkey env key 3 1, subkey env key 3 2)"

definition split2 :: "'k env \<Rightarrow> 'k \<Rightarrow> 'k \<times> 'k" where
  "split2 env key = (subkey env key 2 0, subkey env key 2 1)"

text \<open>
  Every evaluation of the model is an effect that the claims count.  The state passed
  through the samplers is the number of model evaluations performed so far; a call of
  \<^verbatim>\<open>model.forward\<close>, and a call of its gradient, adds one.
\<close>

definition forward_call :: "'k env \<Rightarrow> fval list \<Rightarrow> nat \<Rightarrow> fval \<times> nat" where
  "forward_call env U calls = (model_forward env U, Suc calls)"

definition grad_call :: "'k env \<Rightarrow> fval list \<Rightarrow> nat \<Rightarrow> fval list \<times> nat" where
  "grad_call env U calls = (grad_forward env U, Suc calls)"

text \<open>
  \<^verbatim>\<open>lax.while_loop\<close>: the loop may run forever, which is the value \<open>None\<close>.
\<close>

partial_function (option) while_loop :: "('s \<Rightarrow> bool) \<Rightarrow> ('s \<Rightarrow> 's) \<Rightarrow> 's \<Rightarrow> 's option" where
  "while_loop cond_fun body_fun val =
     (if cond_fun val then while_loop cond_fun body_fun (body_fun val) else Some val)"

declare while_loop.simps [code]

text \<open>The same loop with a body that can raise: the error leaves the loop.\<close>

partial_function (option) while_loop_raising ::
  "('s \<Rightarrow> bool) \<Rightarrow> ('s \<Rightarrow> error + 's) \<Rightarrow> 's \<Rightarrow> (error + 's) option" where
  "while_loop_raising cond_fun body_fun val =
     (if cond_fun val
      then (case body_fun val of Inl e \<Rightarrow> Some (Inl e)
            | Inr val' \<Rightarrow> while_loop_raising cond_fun body_fun val')
      else Some (Inr val))"

declare while_loop_raising.simps [code]

section \<open>The slice sampler\<close>

record SeedPoint =
  U0 :: "fval list"
  log_L0 :: fval

record Sample =
  U_sample :: "fval list"
  log_L_constraint :: fval
  log_L :: fval
  num_likelihood_evaluations :: int

text \<open>
  A direction has the shape of the point.  For one dimension the source returns the
  scalar \<^verbatim>\<open>jnp.ones(())\<close>, which broadcasts against the point of shape \<open>[1]\<close>: it is
  the one-entry list here.
\<close>

definition sample_direction :: "'k env \<Rightarrow> 'k \<Rightarrow> nat \<Rightarrow> fval list" where
  "sample_direction env n_key ndim =
     (if ndim = 1 then [Fin 1]
      else let direction = random_normal env n_key ndim;
               nrm = linalg_norm env direction
           in map (\<lambda>d. fl_div d nrm) direction)"

definition slice_bounds :: "fval list \<Rightarrow> fval list \<Rightarrow> error + (fval \<times> fval)" where
  "slice_bounds point_U0 direction =
     (let t1 = map2 (\<lambda>u d. fl_div (fl_sub (Fin 1) u) d) point_U0 direction;
          t0 = map2 (\<lambda>u d. fl_div (fl_neg u) d) point_U0 direction
      in case jnp_min (map (\<lambda>t. where_sel (fl_ge t (Fin 0)) t PInf) t1) of Inl e \<Rightarrow> Inl e
         | Inr t1_right \<Rightarrow>
      (case jnp_max (map (\<lambda>t. where_sel (fl_le t (Fin 0)) t NInf) t1) of Inl e \<Rightarrow> Inl e
         | Inr t1_left \<Rightarrow>
      (case jnp_min (map (\<lambda>t. where_sel (fl_ge t (Fin 0)) t PInf) t0) of Inl e \<Rightarrow> Inl e
         | Inr t0_right \<Rightarrow>
      (case jnp_max (map (\<lambda>t. where_sel (fl_le t (Fin 0)) t NInf) t0) of Inl e \<Rightarrow> Inl e
         | Inr t0_left \<Rightarrow>
      (let right_bound = minimum t0_right t1_right;
           left_bound = maximum t0_left t1_left
       in Inr (left_bound, right_bound))))))"

definition pick_point_in_interval ::
  "'k env \<Rightarrow> 'k \<Rightarrow> fval list \<Rightarrow> fval list \<Rightarrow> fval \<Rightarrow> fval \<Rightarrow> fval list \<times> fval" where
  "pick_point_in_interval env key point_U0 direction left right =
     (let t = random_uniform env key left right;
          point_U = map2 (\<lambda>u d. fl_add u (fl_mul t d)) point_U0 direction
      in (point_U, t))"

definition shrink_interval ::
  "'k env \<Rightarrow> 'k \<Rightarrow> fval \<Rightarrow> fval \<Rightarrow> fval \<Rightarrow> fval \<Rightarrow> fval \<Rightarrow> fval \<Rightarrow> bool \<Rightarrow> fval \<times> fval" where
  "shrink_interval env key t left right log_L_proposal log_L_constr log_L_0 midpoint_shrink =
     (let left1 = where_sel (fl_less t (Fin 0)) t left;
          right1 = where_sel (fl_greater t (Fin 0)) t right
      in if midpoint_shrink
         then (let alpha = random_uniform env key (Fin 0) (Fin 1);
                   left2 = where_sel (fl_less t (Fin 0)) (fl_mul alpha left1) left1;
                   right2 = where_sel (fl_greater t (Fin 0)) (fl_mul alpha right1) right1
               in (left2, right2))
         else (left1, right1))"

record 'k Carry =
  carry_key :: 'k
  carry_direction :: "fval list"
  carry_left :: fval
  carry_right :: fval
  carry_t :: fval
  carry_point_U :: "fval list"
  carry_log_L :: fval
  carry_num_likelihood_evaluations :: int

text \<open>
  The loop of \<^verbatim>\<open>_new_proposal\<close>.  Its state is the carry together with the number of
  model evaluations performed so far.
\<close>

definition new_proposal_cond :: "'k env \<Rightarrow> SeedPoint \<Rightarrow> fval \<Rightarrow> 'k Carry \<times> nat \<Rightarrow> bool" where
  "new_proposal_cond env seed_point log_L_c = (\<lambda>(carry, calls).
     (let close_to_zero_interval =
            fl_le (fl_sub (carry_right carry) (carry_left carry)) (Fin (2 * finfo_eps env));
          satisfaction = fl_greater (carry_log_L carry) log_L_c;
          lesser_satisfaction = (fl_eq (log_L0 seed_point) log_L_c \<and> fl_eq (carry_log_L carry) log_L_c);
          done = ((close_to_zero_interval \<or> satisfaction) \<or> lesser_satisfaction)
      in \<not> done))"

definition new_proposal_body ::
  "'k env \<Rightarrow> SeedPoint \<Rightarrow> bool \<Rightarrow> fval \<Rightarrow> 'k Carry \<times> nat \<Rightarrow> 'k Carry \<times> nat" where
  "new_proposal_body env seed_point midpoint_shrink log_L_c = (\<lambda>(carry, calls).
     (case split3 env (carry_key carry) of (key, t_key, shrink_key) \<Rightarrow>
      (case shrink_interval env shrink_key (carry_t carry) (carry_left carry) (carry_right carry)
              (carry_log_L carry) log_L_c (log_L0 seed_point) midpoint_shrink of (left, right) \<Rightarrow>
      (case pick_point_in_interval env t_key (U0 seed_point) (carry_direction carry) left right
         of (point_U, t) \<Rightarrow>
      (case forward_call env point_U calls of (logL, calls') \<Rightarrow>
      (let n = carry_num_likelihood_evaluations carry + 1
       in (\<lparr>carry_key = key, carry_direction = carry_direction carry, carry_left = left,
            carry_right = right, carry_t = t, carry_point_U = point_U, carry_log_L = logL,
            carry_num_likelihood_evaluations = n\<rparr>, calls')))))))"

text \<open>
  Lines 179 to 223 of \<^verbatim>\<open>_new_proposal\<close>: the direction, the bracket, the first
  proposal and the initial carry.
\<close>

definition new_proposal_init ::
  "'k env \<Rightarrow> 'k \<Rightarrow> SeedPoint \<Rightarrow> bool \<Rightarrow> bool \<Rightarrow> nat \<Rightarrow> error + ('k Carry \<times> nat)" where
  "new_proposal_init env key0 seed_point perfect gradient_slice calls =
     (case split3 env key0 of (key, n_key, t_key) \<Rightarrow>
      (case
         (if gradient_slice
          then (case grad_call env (U0 seed_point) calls of (g, calls1) \<Rightarrow>
                 (let nrm = linalg_norm env g;
                      direction1 = map (\<lambda>d. fl_div d nrm) g;
                      direction = where_sel (fl_eq nrm (Fin 0) \<or> \<not> isfinite nrm)
                                    (sample_direction env n_key (length (U0 seed_point))) direction1
                  in case slice_bounds (U0 seed_point) direction of Inl e \<Rightarrow> Inl e
                     | Inr (left, right) \<Rightarrow> Inr (direction, 1, Fin 0, right, calls1)))
          else (let direction = sample_direction env n_key (length (U0 seed_point))
                in if perfect
                   then (case slice_bounds (U0 seed_point) direction of Inl e \<Rightarrow> Inl e
                         | Inr (left, right) \<Rightarrow> Inr (direction, 0, left, right, calls))
                   else Inl NotImplementedError))
       of Inl e \<Rightarrow> Inl e
        | Inr (direction, n, left, right, calls1) \<Rightarrow>
      (case pick_point_in_interval env t_key (U0 seed_point) direction left right of (point_U, t) \<Rightarrow>
      (case forward_call env point_U calls1 of (logL, calls2) \<Rightarrow>
         Inr (\<lparr>carry_key = key, carry_direction = direction, carry_left = left,
               carry_right = right, carry_t = t, carry_point_U = point_U, carry_log_L = logL,
               carry_num_likelihood_evaluations = n\<rparr>, calls2)))))"

text \<open>
  A result is \<open>None\<close> when the call does not return, \<open>Some (Inl e)\<close> when it raises \<open>e\<close>
  and \<open>Some (Inr v)\<close> when it returns \<open>v\<close>.
\<close>

type_synonym 'a result = "(error + 'a) option"

definition new_proposal_loop ::
  "'k env \<Rightarrow> 'k \<Rightarrow> SeedPoint \<Rightarrow> bool \<Rightarrow> bool \<Rightarrow> bool \<Rightarrow> fval \<Rightarrow> nat \<Rightarrow> ('k Carry \<times> nat) result" where
  "new_proposal_loop env key seed_point midpoint_shrink perfect gradient_slice log_L_c calls =
     (case new_proposal_init env key seed_point perfect gradient_slice calls of
        Inl e \<Rightarrow> Some (Inl e)
      | Inr init_carry \<Rightarrow>
          map_option Inr
            (while_loop (new_proposal_cond env seed_point log_L_c)
               (new_proposal_body env seed_point midpoint_shrink log_L_c) init_carry))"

definition new_proposal ::
  "'k env \<Rightarrow> 'k \<Rightarrow> SeedPoint \<Rightarrow> bool \<Rightarrow> bool \<Rightarrow> bool \<Rightarrow> fval \<Rightarrow> nat
     \<Rightarrow> ((fval list \<times> fval \<times> int) \<times> nat) result" where
  "new_proposal env key seed_point midpoint_shrink perfect gradient_slice log_L_c calls =
     (case new_proposal_loop env key seed_point midpoint_shrink perfect gradient_slice log_L_c calls of
        None \<Rightarrow> None
      | Some (Inl e) \<Rightarrow> Some (Inl e)
      | Some (Inr (carry, calls')) \<Rightarrow>
          Some (Inr ((carry_point_U carry, carry_log_L carry,
                      carry_num_likelihood_evaluations carry), calls')))"

record UniDimSliceSampler =
  num_slices :: int
  num_phantom_save :: int
  midpoint_shrink :: bool
  perfect :: bool
  gradient_slice :: bool

definition UniDimSliceSampler_init ::
  "int \<Rightarrow> int \<Rightarrow> bool \<Rightarrow> bool \<Rightarrow> bool \<Rightarrow> error + UniDimSliceSampler" where
  "UniDimSliceSampler_init n p ms pf gs =
     (if n < 1 then Inl ValueError
      else if p < 0 then Inl ValueError
      else if p \<ge> n then Inl ValueError
      else if \<not> pf then Inl ValueError
      else Inr \<lparr>num_slices = n, num_phantom_save = p, midpoint_shrink = ms, perfect = pf,
                gradient_slice = gs\<rparr>)"

definition num_phantom :: "UniDimSliceSampler \<Rightarrow> int" where
  "num_phantom self = num_phantom_save self"

text \<open>The sampler state is a one-entry tuple holding a sample collection.\<close>

datatype 'c SamplerState = SamplerState 'c

definition post_process :: "UniDimSliceSampler \<Rightarrow> 'c \<Rightarrow> 'c SamplerState \<Rightarrow> 'c SamplerState" where
  "post_process self sample_collection sampler_state =
     (if perfect self then SamplerState sample_collection else SamplerState sample_collection)"

definition propose_op ::
  "'k env \<Rightarrow> UniDimSliceSampler \<Rightarrow> fval \<Rightarrow> Sample \<Rightarrow> 'k \<Rightarrow> nat \<Rightarrow> (Sample \<times> nat) result" where
  "propose_op env self log_L_c sample key calls =
     (case new_proposal env key \<lparr>U0 = U_sample sample, log_L0 = log_L sample\<rparr>
             (midpoint_shrink self) (perfect self) (gradient_slice self) log_L_c calls of
        None \<Rightarrow> None
      | Some (Inl e) \<Rightarrow> Some (Inl e)
      | Some (Inr ((U, logL, n), calls')) \<Rightarrow>
          Some (Inr (\<lparr>U_sample = U, log_L_constraint = log_L_c, log_L = logL,
                      num_likelihood_evaluations = n + num_likelihood_evaluations sample\<rparr>, calls')))"

text \<open>
  Modelled from the spec: \<^verbatim>\<open>cumulative_op_static\<close> of
  \<^verbatim>\<open>jaxns.internals.cumulative_ops\<close> is not among the sources.  The spec describes it as
  a cumulative scan that performs the chained proposals, "threading the output of each
  proposal as the seed of the next", and the caller's comment reads "Last sample is the
  final sample": the result is the final accumulated value and the list of the
  accumulated values after each step.
\<close>

fun cumulative_op_static ::
  "('v \<Rightarrow> 'y \<Rightarrow> nat \<Rightarrow> ('v \<times> nat) result) \<Rightarrow> 'v \<Rightarrow> 'y list \<Rightarrow> nat \<Rightarrow> (('v \<times> 'v list) \<times> nat) result" where
  "cumulative_op_static op init [] calls = Some (Inr ((init, []), calls))"
| "cumulative_op_static op init (x # xs) calls =
     (case op init x calls of
        None \<Rightarrow> None
      | Some (Inl e) \<Rightarrow> Some (Inl e)
      | Some (Inr (acc, calls1)) \<Rightarrow>
          (case cumulative_op_static op acc xs calls1 of
             None \<Rightarrow> None
           | Some (Inl e) \<Rightarrow> Some (Inl e)
           | Some (Inr ((final, rest), calls2)) \<Rightarrow> Some (Inr ((final, acc # rest), calls2))))"

text \<open>Python's \<^verbatim>\<open>xs[start:stop]\<close>: a negative index counts from the end, and both are clipped.\<close>

definition py_slice :: "'a list \<Rightarrow> int \<Rightarrow> int \<Rightarrow> 'a list" where
  "py_slice xs start stop =
     (let n = int (length xs);
          a = (if start < 0 then max (start + n) 0 else min start n);
          b = (if stop < 0 then max (stop + n) 0 else min stop n)
      in take (nat (b - a)) (drop (nat a) xs))"

text \<open>\<^verbatim>\<open>.astype(int_type)\<close> of a float: truncation towards zero.\<close>

definition astype_int :: "real \<Rightarrow> int" where
  "astype_int x = (if x < 0 then \<lceil>x\<rceil> else \<lfloor>x\<rfloor>)"

definition get_sample_from_seed ::
  "'k env \<Rightarrow> UniDimSliceSampler \<Rightarrow> 'k \<Rightarrow> SeedPoint \<Rightarrow> fval \<Rightarrow> 'c SamplerState \<Rightarrow> nat
     \<Rightarrow> ((Sample \<times> Sample list) \<times> nat) result" where
  "get_sample_from_seed env self key seed_point log_L_c sampler_state calls =
     (let init_sample = \<lparr>U_sample = U0 seed_point, log_L_constraint = log_L_c,
                          log_L = log_L0 seed_point, num_likelihood_evaluations = 0\<rparr>
      in case cumulative_op_static (propose_op env self log_L_c) init_sample
                (random_split env key (nat (num_slices self))) calls of
           None \<Rightarrow> None
         | Some (Inl e) \<Rightarrow> Some (Inl e)
         | Some (Inr ((final_sample, cumulative_samples), calls')) \<Rightarrow>
             (let phantom_samples = py_slice cumulative_samples (- (num_phantom_save self + 1)) (- 1);
                  per_phantom_sample =
                    astype_int (real_of_int (num_likelihood_evaluations final_sample)
                                / real_of_int (num_phantom_save self + 1));
                  per_accepted_sample =
                    num_likelihood_evaluations final_sample - per_phantom_sample * num_phantom_save self
              in Some (Inr ((final_sample\<lparr>num_likelihood_evaluations := per_accepted_sample\<rparr>,
                             map (\<lambda>s. s\<lparr>num_likelihood_evaluations := per_phantom_sample\<rparr>)
                               phantom_samples), calls'))))"

section \<open>The multi-ellipsoidal rejection sampler\<close>

text \<open>
  \<open>efficiency_threshold\<close> is set by the base class, which is not among the sources; it
  is a field of the sampler here.  The sample type of this sampler has its own fields.
\<close>

record MultiellipsoidalSampler =
  depth :: int
  efficiency_threshold :: real

record RejectionSample =
  rs_point_U :: "fval list"
  rs_log_L_constraint :: fval
  rs_log_L :: fval
  rs_num_likelihood_evaluations :: int
  rs_num_slices :: int
  rs_iid :: bool

record 'k CarryState =
  cs_done :: bool
  cs_key :: 'k
  cs_U :: "fval list"
  cs_log_L :: fval
  cs_log_L_constraint :: fval
  cs_num_likelihood_evals :: int

text \<open>
  \<open>sample_U key preprocess_data\<close> is \<^verbatim>\<open>_sample_multi_ellipsoid(key)\<close>, the external
  primitive that draws a point from the ellipsoids of \<open>preprocess_data\<close>.
\<close>

text \<open>Python's division of two floats raises on a zero divisor.\<close>

definition py_truediv :: "real \<Rightarrow> real \<Rightarrow> error + real" where
  "py_truediv a b = (if b = 0 then Inl ZeroDivisionError else Inr (a / b))"

definition get_sample_body ::
  "'k env \<Rightarrow> ('k \<Rightarrow> 'p \<Rightarrow> fval list) \<Rightarrow> MultiellipsoidalSampler \<Rightarrow> 'p
     \<Rightarrow> 'k CarryState \<times> nat \<Rightarrow> error + ('k CarryState \<times> nat)" where
  "get_sample_body env sample_U self preprocess_data = (\<lambda>(carry_state, calls).
     (case split2 env (cs_key carry_state) of (key, sample_key) \<Rightarrow>
      (case forward_call env (cs_U carry_state) calls of (logL, calls') \<Rightarrow>
      (let num_likelihood_evals = cs_num_likelihood_evals carry_state + 1
       in case py_truediv 1 (efficiency_threshold self) of Inl e \<Rightarrow> Inl e
          | Inr threshold \<Rightarrow>
      (let constr = where_sel (real_of_int num_likelihood_evals > threshold)
                      (fl_sub (cs_log_L_constraint carry_state) (Fin (1 / 10)))
                      (cs_log_L_constraint carry_state);
           done = fl_greater logL constr;
           U = where_sel done (cs_U carry_state) (sample_U sample_key preprocess_data)
       in Inr (\<lparr>cs_done = done, cs_key = key, cs_U = U, cs_log_L = logL,
                 cs_log_L_constraint = constr,
                 cs_num_likelihood_evals = num_likelihood_evals\<rparr>, calls'))))))"

text \<open>Lines 78 to 84 of \<^verbatim>\<open>get_sample\<close>: the initial carry.\<close>

definition init_carry_state ::
  "'k env \<Rightarrow> ('k \<Rightarrow> 'p \<Rightarrow> fval list) \<Rightarrow> 'k \<Rightarrow> fval \<Rightarrow> 'p \<Rightarrow> 'k CarryState" where
  "init_carry_state env sample_U key0 log_L_c preprocess_data =
     (case split2 env key0 of (key, sample_key) \<Rightarrow>
        \<lparr>cs_done = False, cs_key = key, cs_U = sample_U sample_key preprocess_data,
         cs_log_L = log_L_c, cs_log_L_constraint = log_L_c, cs_num_likelihood_evals = 0\<rparr>)"

definition get_sample ::
  "'k env \<Rightarrow> ('k \<Rightarrow> 'p \<Rightarrow> fval list) \<Rightarrow> MultiellipsoidalSampler \<Rightarrow> 'k \<Rightarrow> fval \<Rightarrow> 'l \<Rightarrow> 'p \<Rightarrow> nat
     \<Rightarrow> (RejectionSample \<times> nat) result" where
  "get_sample env sample_U self key0 log_L_c live_points preprocess_data calls =
     (case while_loop_raising (\<lambda>(s, calls). \<not> cs_done s)
             (get_sample_body env sample_U self preprocess_data)
             (init_carry_state env sample_U key0 log_L_c preprocess_data, calls) of
        None \<Rightarrow> None
      | Some (Inl e) \<Rightarrow> Some (Inl e)
      | Some (Inr (carry_state, calls')) \<Rightarrow>
          Some (Inr (\<lparr>rs_point_U = cs_U carry_state,
                      rs_log_L_constraint = cs_log_L_constraint carry_state,
                      rs_log_L = cs_log_L carry_state,
                      rs_num_likelihood_evaluations = cs_num_likelihood_evals carry_state,
                      rs_num_slices = 0, rs_iid = True\<rparr>, calls')))"

text \<open>
  One pass of the loop body as a function of the loop state, for the runs in which the
  body does not raise.
\<close>

definition get_sample_step ::
  "'k env \<Rightarrow> ('k \<Rightarrow> 'p \<Rightarrow> fval list) \<Rightarrow> MultiellipsoidalSampler \<Rightarrow> 'p
     \<Rightarrow> 'k CarryState \<times> nat \<Rightarrow> 'k CarryState \<times> nat" where
  "get_sample_step env sample_U self preprocess_data x =
     (case get_sample_body env sample_U self preprocess_data x of Inl e \<Rightarrow> x | Inr y \<Rightarrow> y)"

section \<open>Predicates of the specification and invariants\<close>

text \<open>The bracket of a loop state contains the origin.\<close>

definition bracket_ok :: "'k Carry \<times> nat \<Rightarrow> bool" where
  "bracket_ok = (\<lambda>(carry, calls).
     fl_le (carry_left carry) (Fin 0) \<and> fl_le (Fin 0) (carry_right carry))"

text \<open>
  What the sampler relies on from \<^verbatim>\<open>random.uniform\<close>: a draw is a number or NaN, never
  an infinity, and the default draw \<^verbatim>\<open>random.uniform(key)\<close> lies in \<open>[0, 1)\<close>.
\<close>

definition draws_ok :: "'k env \<Rightarrow> bool" where
  "draws_ok env =
     ((\<forall>key lo hi. random_uniform env key lo hi \<noteq> PInf \<and> random_uniform env key lo hi \<noteq> NInf)
      \<and> (\<forall>key. \<exists>a. random_uniform env key (Fin 0) (Fin 1) = Fin a \<and> 0 \<le> a \<and> a < 1))"

text \<open>
  The acceptance condition of a slice step: the likelihood exceeds the constraint, or
  the seed and the proposal both sit on the constraint (the plateau tie-break).
\<close>

definition accepted :: "fval \<Rightarrow> fval \<Rightarrow> fval \<Rightarrow> bool" where
  "accepted log_L_c seed_log_L0 logL =
     (fl_greater logL log_L_c \<or> (fl_eq seed_log_L0 log_L_c \<and> fl_eq logL log_L_c))"

definition collapsed :: "'k env \<Rightarrow> 'k Carry \<Rightarrow> bool" where
  "collapsed env carry =
     fl_le (fl_sub (carry_right carry) (carry_left carry)) (Fin (2 * finfo_eps env))"

text \<open>
  A point of the unit cube: at least one coordinate, every coordinate a number in
  \<open>[0, 1]\<close>.  A direction along which a slice can be taken: every entry is a number and
  one of them is not zero.  \<open>point_at U d s\<close> is the point \<open>U + s * d\<close> that
  \<open>pick_point_in_interval\<close> computes for the draw \<open>s\<close>.
\<close>

definition in_unit_cube :: "fval list \<Rightarrow> bool" where
  "in_unit_cube U = (U \<noteq> [] \<and> (\<forall>u\<in>set U. \<exists>x. u = Fin x \<and> 0 \<le> x \<and> x \<le> 1))"

definition proper_direction :: "fval list \<Rightarrow> bool" where
  "proper_direction d = ((\<forall>x\<in>set d. isfinite x) \<and> (\<exists>x\<in>set d. x \<noteq> Fin 0))"

definition point_at :: "fval list \<Rightarrow> fval list \<Rightarrow> real \<Rightarrow> fval list" where
  "point_at U d s = map2 (\<lambda>u x. fl_add u (fl_mul (Fin s) x)) U d"

text \<open>
  The entries that \<open>slice_bounds\<close> reduces are numbers of one sign or the infinity of
  that sign; \<open>below s v\<close> and \<open>above s v\<close> compare a real with such an entry.
\<close>

definition upper_bound :: "fval \<Rightarrow> bool" where
  "upper_bound v = (v = PInf \<or> (\<exists>x. v = Fin x \<and> 0 \<le> x))"

definition lower_bound :: "fval \<Rightarrow> bool" where
  "lower_bound v = (v = NInf \<or> (\<exists>x. v = Fin x \<and> x \<le> 0))"

definition below :: "real \<Rightarrow> fval \<Rightarrow> bool" where
  "below s v = (v = PInf \<or> (\<exists>x. v = Fin x \<and> s \<le> x))"

definition above :: "real \<Rightarrow> fval \<Rightarrow> bool" where
  "above s v = (v = NInf \<or> (\<exists>x. v = Fin x \<and> x \<le> s))"

text \<open>
  What a slice step needs from the library to end.  A draw from a bracket
  \<open>[a, b]\<close> around the origin is a number of the bracket; when the bracket is not a
  single point the draw is not the origin itself, and shrinking the bracket to the draw
  leaves at most the fraction \<open>c < 1\<close> of its width.  The normal draws for a direction
  are numbers, not all zero; the norm of a list of numbers is a number that is zero
  exactly for the zero list; and the gradient of the model is a list of numbers of the
  shape of the point.
\<close>

definition draws_progress :: "'k env \<Rightarrow> real \<Rightarrow> bool" where
  "draws_progress env c =
     (0 \<le> c \<and> c < 1
      \<and> (\<forall>key a b. a \<le> 0 \<and> 0 \<le> b \<longrightarrow>
            (\<exists>t. random_uniform env key (Fin a) (Fin b) = Fin t \<and> a \<le> t \<and> t \<le> b
                 \<and> (a < b \<longrightarrow> t \<noteq> 0 \<and> (t < 0 \<longrightarrow> b - t \<le> c * (b - a))
                                \<and> (0 < t \<longrightarrow> t - a \<le> c * (b - a))))))"

definition directions_ok :: "'k env \<Rightarrow> bool" where
  "directions_ok env =
     ((\<forall>key n. 1 < n \<longrightarrow> length (random_normal env key n) = n
                          \<and> proper_direction (random_normal env key n))
      \<and> (\<forall>v. (\<forall>x\<in>set v. isfinite x) \<longrightarrow>
             (\<exists>r. linalg_norm env v = Fin r \<and> (r = 0 \<longleftrightarrow> (\<forall>x\<in>set v. x = Fin 0))))
      \<and> (\<forall>U. length (grad_forward env U) = length U
             \<and> (\<forall>x\<in>set (grad_forward env U). isfinite x)))"

text \<open>
  The invariant of the loop of a slice step from the seed \<open>U\<close>: the bracket is finite
  and contains the origin, every point of the slice over the bracket lies in the unit
  cube, and the current draw \<open>t\<close> is a draw from the bracket as above, with the point
  of the carry at \<open>t\<close>.  \<open>width\<close> is the width of the bracket.
\<close>

definition slice_inv :: "real \<Rightarrow> fval list \<Rightarrow> 'k Carry \<times> nat \<Rightarrow> bool" where
  "slice_inv c U = (\<lambda>(carry, calls).
     \<exists>l r t. carry_left carry = Fin l \<and> carry_right carry = Fin r \<and> carry_t carry = Fin t
       \<and> l \<le> 0 \<and> 0 \<le> r \<and> l \<le> t \<and> t \<le> r
       \<and> (l < r \<longrightarrow> t \<noteq> 0 \<and> (t < 0 \<longrightarrow> r - t \<le> c * (r - l)) \<and> (0 < t \<longrightarrow> t - l \<le> c * (r - l)))
       \<and> (\<forall>s. l \<le> s \<and> s \<le> r \<longrightarrow> in_unit_cube (point_at U (carry_direction carry) s))
       \<and> carry_point_U carry = point_at U (carry_direction carry) t)"

definition width :: "'k Carry \<times> nat \<Rightarrow> real" where
  "width = (\<lambda>(carry, calls).
     (case carry_left carry of Fin l \<Rightarrow> (case carry_right carry of Fin r \<Rightarrow> r - l | _ \<Rightarrow> 0)
      | _ \<Rightarrow> 0))"

text \<open>
  The backoff schedule of the rejection sampler: the constraint in force at attempt \<open>k\<close>
  (attempts are numbered from \<open>1\<close>) is the original one, lowered by \<open>0.1\<close> at every
  attempt whose number exceeds the threshold \<open>1 / efficiency_threshold\<close>.
\<close>

fun relaxed_constraint :: "real \<Rightarrow> fval \<Rightarrow> nat \<Rightarrow> fval" where
  "relaxed_constraint threshold c0 0 = c0"
| "relaxed_constraint threshold c0 (Suc k) =
     (if real (Suc k) > threshold then fl_sub (relaxed_constraint threshold c0 k) (Fin (1 / 10))
      else relaxed_constraint threshold c0 k)"

text \<open>
  The state of the rejection loop after \<open>j\<close> passes of the body, from the initial carry.
\<close>

definition attempt ::
  "'k env \<Rightarrow> ('k \<Rightarrow> 'p \<Rightarrow> fval list) \<Rightarrow> MultiellipsoidalSampler \<Rightarrow> 'k \<Rightarrow> fval \<Rightarrow> 'p \<Rightarrow> nat
     \<Rightarrow> nat \<Rightarrow> 'k CarryState \<times> nat" where
  "attempt env sample_U self key0 log_L_c preprocess_data calls j =
     (get_sample_step env sample_U self preprocess_data ^^ j)
       (init_carry_state env sample_U key0 log_L_c preprocess_data, calls)"

text \<open>
  What the rejection loop needs to end: every point that the ellipsoid primitive
  proposes has a likelihood that is a number, not below the bound \<open>m\<close>.
\<close>

definition bounded_below ::
  "'k env \<Rightarrow> ('k \<Rightarrow> 'p \<Rightarrow> fval list) \<Rightarrow> 'p \<Rightarrow> real \<Rightarrow> bool" where
  "bounded_below env sample_U preprocess_data m =
     (\<forall>key. \<exists>v. model_forward env (sample_U key preprocess_data) = Fin v \<and> m \<le> v)"

section \<open>A concrete environment\<close>

text \<open>
  Keys are numbers.  A uniform draw is the midpoint of its interval (NaN when a bound
  is not finite), the unit roundoff is that of single precision, and the likelihood of
  the model is \<open>1\<close> at the point \<open>1/3\<close> of the unit interval and \<open>0\<close> elsewhere.
\<close>

definition midpoint_uniform :: "nat \<Rightarrow> fval \<Rightarrow> fval \<Rightarrow> fval" where
  "midpoint_uniform key lo hi =
     (case lo of Fin a \<Rightarrow> (case hi of Fin b \<Rightarrow> Fin (a + (b - a) / 2) | _ \<Rightarrow> NaN) | _ \<Rightarrow> NaN)"

definition spike_forward :: "fval list \<Rightarrow> fval" where
  "spike_forward U = (if U = [Fin (1 / 3)] then Fin 1 else Fin 0)"

definition env0 :: "nat env" where
  "env0 = \<lparr>subkey = (\<lambda>key n i. key + i + 1),
           random_uniform = midpoint_uniform,
           random_normal = (\<lambda>key n. replicate n (Fin 1)),
           linalg_norm = (\<lambda>v. Fin 1),
           finfo_eps = 1 / 2 ^ 23,
           model_forward = spike_forward,
           grad_forward = (\<lambda>U. map (\<lambda>u. Fin 0) U)\<rparr>"

definition sampler1 :: UniDimSliceSampler where
  "sampler1 = \<lparr>num_slices = 1, num_phantom_save = 0, midpoint_shrink = False, perfect = True,
               gradient_slice = False\<rparr>"

definition sampler5 :: UniDimSliceSampler where
  "sampler5 = \<lparr>num_slices = 5, num_phantom_save = 2, midpoint_shrink = True, perfect = True,
               gradient_slice = False\<rparr>"

definition seed0 :: SeedPoint where
  "seed0 = \<lparr>U0 = [Fin (1 / 3)], log_L0 = Fin 1\<rparr>"

text \<open>A second model on the unit interval: the likelihood of a point is its coordinate.\<close>

definition coord_forward :: "fval list \<Rightarrow> fval" where
  "coord_forward U = (case U of [x] \<Rightarrow> x | _ \<Rightarrow> NaN)"

definition env1 :: "nat env" where
  "env1 = env0\<lparr>model_forward := coord_forward\<rparr>"

definition seed1 :: SeedPoint where
  "seed1 = \<lparr>U0 = [Fin (3 / 4)], log_L0 = Fin (3 / 4)\<rparr>"

text \<open>
  A third environment, for the runs that must end whatever the model is: a uniform
  draw from \<open>[a, b]\<close> is the midpoint between the origin and the farther end of the
  interval, the norm is the Euclidean one, and the gradient is that of the sum of the
  coordinates.
\<close>

definition farther_half_uniform :: "nat \<Rightarrow> fval \<Rightarrow> fval \<Rightarrow> fval" where
  "farther_half_uniform key lo hi =
     (case lo of Fin a \<Rightarrow> (case hi of Fin b \<Rightarrow> Fin (if - a \<le> b then b / 2 else a / 2) | _ \<Rightarrow> NaN)
      | _ \<Rightarrow> NaN)"

definition euclidean_norm :: "fval list \<Rightarrow> fval" where
  "euclidean_norm v =
     (if \<forall>x\<in>set v. isfinite x
      then Fin (sqrt (sum_list (map (\<lambda>x. case x of Fin r \<Rightarrow> r * r | _ \<Rightarrow> 0) v)))
      else NaN)"

definition env2 :: "nat env" where
  "env2 = env1\<lparr>random_uniform := farther_half_uniform, linalg_norm := euclidean_norm,
               grad_forward := (\<lambda>U. map (\<lambda>u. Fin 1) U)\<rparr>"

text \<open>A sampler of two slice steps that keeps one phantom.\<close>

definition sampler2 :: UniDimSliceSampler where
  "sampler2 = \<lparr>num_slices = 2, num_phantom_save = 1, midpoint_shrink = False, perfect = True,
               gradient_slice = False\<rparr>"

text \<open>
  A rejection sampler with \<open>efficiency_threshold = 1/2\<close> whose ellipsoid primitive
  always proposes the point \<open>1/2\<close>.
\<close>

definition sampler_me :: MultiellipsoidalSampler where
  "sampler_me = \<lparr>depth = 1, efficiency_threshold = 1 / 2\<rparr>"

definition centre_U :: "nat \<Rightarrow> unit \<Rightarrow> fval list" where
  "centre_U key preprocess_data = [Fin (1 / 2)]"

section \<open>Facts about the floating-point operations\<close>

lemma foldl_closed:
  "P x \<Longrightarrow> (\<forall>y\<in>set xs. P y) \<Longrightarrow> (\<And>a b. P a \<Longrightarrow> P b \<Longrightarrow> P (f a b)) \<Longrightarrow> P (foldl f x xs)"
  by (induction xs arbitrary: x) auto

lemma minimum_nonneg: "fl_le (Fin 0) a \<Longrightarrow> fl_le (Fin 0) b \<Longrightarrow> fl_le (Fin 0) (minimum a b)"
  by (auto simp: minimum_def)

lemma maximum_nonpos: "fl_le a (Fin 0) \<Longrightarrow> fl_le b (Fin 0) \<Longrightarrow> fl_le (maximum a b) (Fin 0)"
  by (auto simp: maximum_def)

lemma jnp_min_nonneg:
  assumes "xs \<noteq> []" and "\<forall>x\<in>set xs. fl_le (Fin 0) x"
  shows "\<exists>r. jnp_min xs = Inr r \<and> fl_le (Fin 0) r"
proof (cases xs)
  case Nil with assms show ?thesis by simp
next
  case (Cons x ys)
  with assms have "fl_le (Fin 0) (foldl minimum x ys)"
    by (intro foldl_closed [where P = "fl_le (Fin 0)"] minimum_nonneg) auto
  with Cons show ?thesis by simp
qed

lemma jnp_max_nonpos:
  assumes "xs \<noteq> []" and "\<forall>x\<in>set xs. fl_le x (Fin 0)"
  shows "\<exists>r. jnp_max xs = Inr r \<and> fl_le r (Fin 0)"
proof (cases xs)
  case Nil with assms show ?thesis by simp
next
  case (Cons x ys)
  with assms have "(\<lambda>v. fl_le v (Fin 0)) (foldl maximum x ys)"
    by (intro foldl_closed [where P = "\<lambda>v. fl_le v (Fin 0)"] maximum_nonpos) auto
  with Cons show ?thesis by simp
qed

lemma where_right_nonneg: "fl_le (Fin 0) (where_sel (fl_ge t (Fin 0)) t PInf)"
  by (auto simp: where_sel_def fl_ge_def fl_le_def fl_eq_def)

lemma where_left_nonpos: "fl_le (where_sel (fl_le t (Fin 0)) t NInf) (Fin 0)"
  by (auto simp: where_sel_def fl_le_def fl_eq_def)

lemma right_part:
  "ts \<noteq> [] \<Longrightarrow>
     \<exists>r. jnp_min (map (\<lambda>t. where_sel (fl_ge t (Fin 0)) t PInf) ts) = Inr r \<and> fl_le (Fin 0) r"
  by (rule jnp_min_nonneg) (simp_all add: where_right_nonneg)

lemma left_part:
  "ts \<noteq> [] \<Longrightarrow>
     \<exists>r. jnp_max (map (\<lambda>t. where_sel (fl_le t (Fin 0)) t NInf) ts) = Inr r \<and> fl_le r (Fin 0)"
  by (rule jnp_max_nonpos) (simp_all add: where_left_nonpos)

lemma fl_mul_nonneg_le0:
  "0 \<le> a \<Longrightarrow> x \<le> 0 \<Longrightarrow> fl_le (fl_mul (Fin a) (Fin x)) (Fin 0)"
  using mult_nonneg_nonpos [of a x] by (auto simp: fl_le_def fl_eq_def mult_less_0_iff)

lemma fl_mul_nonneg_ge0:
  "0 \<le> a \<Longrightarrow> 0 \<le> x \<Longrightarrow> fl_le (Fin 0) (fl_mul (Fin a) (Fin x))"
  using mult_nonneg_nonneg [of a x] by (auto simp: fl_le_def fl_eq_def zero_less_mult_iff)

lemma minimum_below:
  assumes "upper_bound a" "upper_bound b"
  shows "upper_bound (minimum a b) \<and> (\<forall>s. below s (minimum a b) \<longleftrightarrow> below s a \<and> below s b)"
  using assms by (auto simp: upper_bound_def below_def minimum_def)

lemma maximum_above:
  assumes "lower_bound a" "lower_bound b"
  shows "lower_bound (maximum a b) \<and> (\<forall>s. above s (maximum a b) \<longleftrightarrow> above s a \<and> above s b)"
  using assms by (auto simp: lower_bound_def above_def maximum_def)

lemma foldl_minimum_below:
  assumes "upper_bound x" "\<forall>y\<in>set xs. upper_bound y"
  shows "upper_bound (foldl minimum x xs)
     \<and> (\<forall>s. below s (foldl minimum x xs) \<longleftrightarrow> below s x \<and> (\<forall>y\<in>set xs. below s y))"
  using assms
proof (induction xs arbitrary: x)
  case Nil
  then show ?case by simp
next
  case (Cons y ys)
  from Cons.prems have m: "upper_bound (minimum x y)"
    "\<forall>s. below s (minimum x y) \<longleftrightarrow> below s x \<and> below s y"
    using minimum_below [of x y] by simp_all
  from Cons.IH [OF m(1)] Cons.prems(2) m(2) show ?case by auto
qed

lemma foldl_maximum_above:
  assumes "lower_bound x" "\<forall>y\<in>set xs. lower_bound y"
  shows "lower_bound (foldl maximum x xs)
     \<and> (\<forall>s. above s (foldl maximum x xs) \<longleftrightarrow> above s x \<and> (\<forall>y\<in>set xs. above s y))"
  using assms
proof (induction xs arbitrary: x)
  case Nil
  then show ?case by simp
next
  case (Cons y ys)
  from Cons.prems have m: "lower_bound (maximum x y)"
    "\<forall>s. above s (maximum x y) \<longleftrightarrow> above s x \<and> above s y"
    using maximum_above [of x y] by simp_all
  from Cons.IH [OF m(1)] Cons.prems(2) m(2) show ?case by auto
qed

lemma jnp_min_below:
  assumes "xs \<noteq> []" "\<forall>y\<in>set xs. upper_bound y"
  shows "\<exists>m. jnp_min xs = Inr m \<and> upper_bound m \<and> (\<forall>s. below s m \<longleftrightarrow> (\<forall>y\<in>set xs. below s y))"
proof (cases xs)
  case Nil with assms show ?thesis by simp
next
  case (Cons x ys)
  with assms foldl_minimum_below [of x ys] show ?thesis by simp
qed

lemma jnp_max_above:
  assumes "xs \<noteq> []" "\<forall>y\<in>set xs. lower_bound y"
  shows "\<exists>m. jnp_max xs = Inr m \<and> lower_bound m \<and> (\<forall>s. above s m \<longleftrightarrow> (\<forall>y\<in>set xs. above s y))"
proof (cases xs)
  case Nil with assms show ?thesis by simp
next
  case (Cons x ys)
  with assms foldl_maximum_above [of x ys] show ?thesis by simp
qed

lemma where_upper_bound: "upper_bound (where_sel (fl_ge t (Fin 0)) t PInf)"
  by (cases t) (auto simp: upper_bound_def where_sel_def fl_ge_def fl_le_def fl_eq_def)

lemma where_lower_bound: "lower_bound (where_sel (fl_le t (Fin 0)) t NInf)"
  by (cases t) (auto simp: lower_bound_def where_sel_def fl_le_def fl_eq_def)

section \<open>The bracket of a slice\<close>

lemma slice_bounds_zip:
  assumes "zip point_U0 direction \<noteq> []"
  shows "\<exists>l r. slice_bounds point_U0 direction = Inr (l, r) \<and> fl_le l (Fin 0) \<and> fl_le (Fin 0) r"
proof -
  define t1 where "t1 = map2 (\<lambda>u d. fl_div (fl_sub (Fin 1) u) d) point_U0 direction"
  define t0 where "t0 = map2 (\<lambda>u d. fl_div (fl_neg u) d) point_U0 direction"
  from assms have ne1: "t1 \<noteq> []" and ne0: "t0 \<noteq> []" by (auto simp: t1_def t0_def)
  from right_part [OF ne1] obtain t1r
    where t1r: "jnp_min (map (\<lambda>t. where_sel (fl_ge t (Fin 0)) t PInf) t1) = Inr t1r"
      "fl_le (Fin 0) t1r"
    by blast
  from right_part [OF ne0] obtain t0r
    where t0r: "jnp_min (map (\<lambda>t. where_sel (fl_ge t (Fin 0)) t PInf) t0) = Inr t0r"
      "fl_le (Fin 0) t0r"
    by blast
  from left_part [OF ne1] obtain t1l
    where t1l: "jnp_max (map (\<lambda>t. where_sel (fl_le t (Fin 0)) t NInf) t1) = Inr t1l"
      "fl_le t1l (Fin 0)"
    by blast
  from left_part [OF ne0] obtain t0l
    where t0l: "jnp_max (map (\<lambda>t. where_sel (fl_le t (Fin 0)) t NInf) t0) = Inr t0l"
      "fl_le t0l (Fin 0)"
    by blast
  have "slice_bounds point_U0 direction = Inr (maximum t0l t1l, minimum t0r t1r)"
    unfolding slice_bounds_def Let_def t1_def [symmetric] t0_def [symmetric]
    by (simp only: t1r t0r t1l t0l sum.case)
  moreover have "fl_le (maximum t0l t1l) (Fin 0)" using t0l(2) t1l(2) by (rule maximum_nonpos)
  moreover have "fl_le (Fin 0) (minimum t0r t1r)" using t0r(2) t1r(2) by (rule minimum_nonneg)
  ultimately show ?thesis by blast
qed

lemma slice_bounds_Inr:
  assumes "slice_bounds point_U0 direction = Inr (l, r)"
  shows "fl_le l (Fin 0) \<and> fl_le (Fin 0) r"
proof (cases "zip point_U0 direction = []")
  case True
  then have e: "\<And>f. map2 f point_U0 direction = []" by simp
  have "slice_bounds point_U0 direction = Inl ValueError"
    unfolding slice_bounds_def Let_def e by simp
  with assms show ?thesis by simp
next
  case False
  from slice_bounds_zip [OF False] assms show ?thesis by auto
qed

lemma shrink_interval_bracket:
  assumes "fl_le left (Fin 0)" "fl_le (Fin 0) right"
    and "t \<noteq> PInf" "t \<noteq> NInf"
    and "ms \<longrightarrow> (\<exists>a. random_uniform env key (Fin 0) (Fin 1) = Fin a \<and> 0 \<le> a \<and> a < 1)"
    and "shrink_interval env key t left right lp lc l0 ms = (l', r')"
  shows "fl_le l' (Fin 0) \<and> fl_le (Fin 0) r'"
proof (cases t)
  case NaN
  with assms show ?thesis
    by (auto simp: shrink_interval_def where_sel_def fl_greater_def Let_def split: if_splits)
next
  case (Fin x)
  show ?thesis
  proof (cases ms)
    case False
    with assms Fin show ?thesis
      by (auto simp: shrink_interval_def where_sel_def fl_greater_def Let_def fl_le_def fl_eq_def
          split: if_splits)
  next
    case True
    with assms obtain a where a: "random_uniform env key (Fin 0) (Fin 1) = Fin a" "0 \<le> a"
      by blast
    have l: "x < 0 \<Longrightarrow> fl_le (fl_mul (Fin a) (Fin x)) (Fin 0)"
      using a(2) by (intro fl_mul_nonneg_le0) auto
    have r: "0 < x \<Longrightarrow> fl_le (Fin 0) (fl_mul (Fin a) (Fin x))"
      using a(2) by (intro fl_mul_nonneg_ge0) auto
    from assms(6) have "l' = (if x < 0 then fl_mul (Fin a) (Fin x) else left)"
      "r' = (if 0 < x then fl_mul (Fin a) (Fin x) else right)"
      by (auto simp: shrink_interval_def where_sel_def fl_greater_def Let_def True Fin a(1))
    with l r assms(1,2) show ?thesis by auto
  qed
qed (use assms in auto)

text \<open>
  From a point of the unit cube, along a proper direction, the bracket is finite and
  the slice over it stays in the cube.
\<close>

lemma component_in_cube:
  assumes x: "0 \<le> x" "x \<le> 1"
    and r1: "below s (where_sel (fl_ge (fl_div (fl_sub (Fin 1) (Fin x)) (Fin y)) (Fin 0))
                        (fl_div (fl_sub (Fin 1) (Fin x)) (Fin y)) PInf)"
    and r0: "below s (where_sel (fl_ge (fl_div (fl_neg (Fin x)) (Fin y)) (Fin 0))
                        (fl_div (fl_neg (Fin x)) (Fin y)) PInf)"
    and l1: "above s (where_sel (fl_le (fl_div (fl_sub (Fin 1) (Fin x)) (Fin y)) (Fin 0))
                        (fl_div (fl_sub (Fin 1) (Fin x)) (Fin y)) NInf)"
    and l0: "above s (where_sel (fl_le (fl_div (fl_neg (Fin x)) (Fin y)) (Fin 0))
                        (fl_div (fl_neg (Fin x)) (Fin y)) NInf)"
  shows "0 \<le> x + s * y \<and> x + s * y \<le> 1"
proof -
  consider "y = 0" | "0 < y" | "y < 0" by linarith
  then show ?thesis
  proof cases
    case 1
    with x show ?thesis by simp
  next
    case 2
    then have a: "0 \<le> (1 - x) / y" "- x / y \<le> 0" using x by (simp_all add: field_simps)
    from r1 2 a(1) have "s \<le> (1 - x) / y"
      by (auto simp: below_def where_sel_def fl_ge_def fl_le_def fl_eq_def fl_sub_def
          split: if_splits)
    then have u: "s * y \<le> 1 - x" using 2 by (simp add: field_simps)
    from l0 2 a(2) have "- x / y \<le> s"
      by (auto simp: above_def where_sel_def fl_le_def fl_eq_def split: if_splits)
    then have "- x \<le> s * y" using 2 by (simp add: field_simps)
    with u show ?thesis by simp
  next
    case 3
    then have a: "(1 - x) / y \<le> 0" "0 \<le> - x / y" using x by (simp_all add: field_simps)
    from l1 3 a(1) have "(1 - x) / y \<le> s"
      by (auto simp: above_def where_sel_def fl_le_def fl_eq_def fl_sub_def split: if_splits)
    then have u: "s * y \<le> 1 - x" using 3 by (simp add: field_simps)
    from r0 3 a(2) have "s \<le> - x / y"
      by (auto simp: below_def where_sel_def fl_ge_def fl_le_def fl_eq_def split: if_splits)
    then have "- x \<le> s * y" using 3 by (simp add: field_simps)
    with u show ?thesis by simp
  qed
qed

lemma component_finite:
  assumes x: "0 \<le> x" "x \<le> 1" and y: "y \<noteq> 0"
  shows "(isfinite (where_sel (fl_ge (fl_div (fl_sub (Fin 1) (Fin x)) (Fin y)) (Fin 0))
                        (fl_div (fl_sub (Fin 1) (Fin x)) (Fin y)) PInf)
          \<or> isfinite (where_sel (fl_ge (fl_div (fl_neg (Fin x)) (Fin y)) (Fin 0))
                        (fl_div (fl_neg (Fin x)) (Fin y)) PInf))
       \<and> (isfinite (where_sel (fl_le (fl_div (fl_sub (Fin 1) (Fin x)) (Fin y)) (Fin 0))
                        (fl_div (fl_sub (Fin 1) (Fin x)) (Fin y)) NInf)
          \<or> isfinite (where_sel (fl_le (fl_div (fl_neg (Fin x)) (Fin y)) (Fin 0))
                        (fl_div (fl_neg (Fin x)) (Fin y)) NInf))"
proof (cases "0 < y")
  case True
  then have a: "0 \<le> (1 - x) / y" "- x / y \<le> 0" using x by (simp_all add: field_simps)
  with True show ?thesis
    by (auto simp: where_sel_def fl_ge_def fl_le_def fl_eq_def fl_sub_def)
next
  case False
  with y have 3: "y < 0" by simp
  then have a: "(1 - x) / y \<le> 0" "0 \<le> - x / y" using x by (simp_all add: field_simps)
  with 3 show ?thesis
    by (auto simp: where_sel_def fl_ge_def fl_le_def fl_eq_def fl_sub_def)
qed

lemma below_finite: "upper_bound m \<Longrightarrow> isfinite y \<Longrightarrow> (\<forall>s. below s m \<longrightarrow> below s y) \<Longrightarrow>
    \<exists>r. m = Fin r \<and> 0 \<le> r"
proof -
  assume m: "upper_bound m" and y: "isfinite y" and b: "\<forall>s. below s m \<longrightarrow> below s y"
  from y obtain q where q: "y = Fin q" by (cases y) auto
  show ?thesis
  proof (cases "m = PInf")
    case True
    then have "below (q + 1) m" by (simp add: below_def)
    with b have "below (q + 1) y" by blast
    with q show ?thesis by (simp add: below_def)
  next
    case False
    with m show ?thesis by (auto simp: upper_bound_def)
  qed
qed

lemma above_finite: "lower_bound m \<Longrightarrow> isfinite y \<Longrightarrow> (\<forall>s. above s m \<longrightarrow> above s y) \<Longrightarrow>
    \<exists>r. m = Fin r \<and> r \<le> 0"
proof -
  assume m: "lower_bound m" and y: "isfinite y" and b: "\<forall>s. above s m \<longrightarrow> above s y"
  from y obtain q where q: "y = Fin q" by (cases y) auto
  show ?thesis
  proof (cases "m = NInf")
    case True
    then have "above (q - 1) m" by (simp add: above_def)
    with b have "above (q - 1) y" by blast
    with q show ?thesis by (simp add: above_def)
  next
    case False
    with m show ?thesis by (auto simp: lower_bound_def)
  qed
qed

lemma slice_bounds_cube:
  assumes cube: "in_unit_cube U" and len: "length d = length U" and dir: "proper_direction d"
  shows "\<exists>l r. slice_bounds U d = Inr (Fin l, Fin r) \<and> l \<le> 0 \<and> 0 \<le> r
           \<and> (\<forall>s. l \<le> s \<and> s \<le> r \<longrightarrow> in_unit_cube (point_at U d s))"
proof -
  define R1 where "R1 = (\<lambda>(u, y). where_sel (fl_ge (fl_div (fl_sub (Fin 1) u) y) (Fin 0))
                        (fl_div (fl_sub (Fin 1) u) y) PInf)"
  define R0 where "R0 = (\<lambda>(u, y). where_sel (fl_ge (fl_div (fl_neg u) y) (Fin 0))
                        (fl_div (fl_neg u) y) PInf)"
  define L1 where "L1 = (\<lambda>(u, y). where_sel (fl_le (fl_div (fl_sub (Fin 1) u) y) (Fin 0))
                        (fl_div (fl_sub (Fin 1) u) y) NInf)"
  define L0 where "L0 = (\<lambda>(u, y). where_sel (fl_le (fl_div (fl_neg u) y) (Fin 0))
                        (fl_div (fl_neg u) y) NInf)"
  define z where "z = zip U d"
  from cube len have ne: "z \<noteq> []" by (cases U; cases d) (auto simp: in_unit_cube_def z_def)
  have m1: "map (\<lambda>t. where_sel (fl_ge t (Fin 0)) t PInf)
              (map2 (\<lambda>u d. fl_div (fl_sub (Fin 1) u) d) U d) = map R1 z"
    and m0: "map (\<lambda>t. where_sel (fl_ge t (Fin 0)) t PInf)
              (map2 (\<lambda>u d. fl_div (fl_neg u) d) U d) = map R0 z"
    and n1: "map (\<lambda>t. where_sel (fl_le t (Fin 0)) t NInf)
              (map2 (\<lambda>u d. fl_div (fl_sub (Fin 1) u) d) U d) = map L1 z"
    and n0: "map (\<lambda>t. where_sel (fl_le t (Fin 0)) t NInf)
              (map2 (\<lambda>u d. fl_div (fl_neg u) d) U d) = map L0 z"
    by (simp_all add: R1_def R0_def L1_def L0_def z_def case_prod_beta)
  have ub1: "\<forall>y\<in>set (map R1 z). upper_bound y"
    and ub0: "\<forall>y\<in>set (map R0 z). upper_bound y"
    by (auto simp: R1_def R0_def where_upper_bound)
  have lb1: "\<forall>y\<in>set (map L1 z). lower_bound y"
    and lb0: "\<forall>y\<in>set (map L0 z). lower_bound y"
    by (auto simp: L1_def L0_def where_lower_bound)
  from ne have nem: "map R1 z \<noteq> []" "map R0 z \<noteq> []" "map L1 z \<noteq> []" "map L0 z \<noteq> []"
    by simp_all
  from jnp_min_below [OF nem(1) ub1] obtain t1r where t1r: "jnp_min (map R1 z) = Inr t1r"
    "upper_bound t1r" "\<forall>s. below s t1r \<longleftrightarrow> (\<forall>y\<in>set (map R1 z). below s y)" by blast
  from jnp_min_below [OF nem(2) ub0] obtain t0r where t0r: "jnp_min (map R0 z) = Inr t0r"
    "upper_bound t0r" "\<forall>s. below s t0r \<longleftrightarrow> (\<forall>y\<in>set (map R0 z). below s y)" by blast
  from jnp_max_above [OF nem(3) lb1] obtain t1l where t1l: "jnp_max (map L1 z) = Inr t1l"
    "lower_bound t1l" "\<forall>s. above s t1l \<longleftrightarrow> (\<forall>y\<in>set (map L1 z). above s y)" by blast
  from jnp_max_above [OF nem(4) lb0] obtain t0l where t0l: "jnp_max (map L0 z) = Inr t0l"
    "lower_bound t0l" "\<forall>s. above s t0l \<longleftrightarrow> (\<forall>y\<in>set (map L0 z). above s y)" by blast
  define right where "right = minimum t0r t1r"
  define left where "left = maximum t0l t1l"
  have sb: "slice_bounds U d = Inr (left, right)"
    unfolding slice_bounds_def Let_def m1 m0 n1 n0 right_def left_def
    by (simp only: t1r(1) t0r(1) t1l(1) t0l(1) sum.case)
  from minimum_below [OF t0r(2) t1r(2)] have right: "upper_bound right"
    "\<forall>s. below s right \<longleftrightarrow> below s t0r \<and> below s t1r" by (simp_all add: right_def)
  from maximum_above [OF t0l(2) t1l(2)] have left: "lower_bound left"
    "\<forall>s. above s left \<longleftrightarrow> above s t0l \<and> above s t1l" by (simp_all add: left_def)
  have rb: "\<And>s p. below s right \<Longrightarrow> p \<in> set z \<Longrightarrow> below s (R1 p) \<and> below s (R0 p)"
    using right(2) t1r(3) t0r(3) by auto
  have lb: "\<And>s p. above s left \<Longrightarrow> p \<in> set z \<Longrightarrow> above s (L1 p) \<and> above s (L0 p)"
    using left(2) t1l(3) t0l(3) by auto
  have comp: "\<And>u y. (u, y) \<in> set z \<Longrightarrow>
      \<exists>a b. u = Fin a \<and> y = Fin b \<and> 0 \<le> a \<and> a \<le> 1"
  proof -
    fix u y assume "(u, y) \<in> set z"
    then have "u \<in> set U" "y \<in> set d" unfolding z_def
      by (auto dest: set_zip_leftD set_zip_rightD)
    with cube dir obtain a where "u = Fin a" "0 \<le> a" "a \<le> 1" and "isfinite y"
      by (auto simp: in_unit_cube_def proper_direction_def)
    then show "\<exists>a b. u = Fin a \<and> y = Fin b \<and> 0 \<le> a \<and> a \<le> 1" by (cases y) auto
  qed
  from dir obtain y0 where y0: "y0 \<in> set d" "y0 \<noteq> Fin 0" by (auto simp: proper_direction_def)
  from in_set_impl_in_set_zip2 [OF len [symmetric] y0(1)] obtain u0 where
    p0: "(u0, y0) \<in> set z" unfolding z_def by blast
  from comp [OF p0] y0(2) obtain a0 b0 where ab: "u0 = Fin a0" "y0 = Fin b0" "0 \<le> a0" "a0 \<le> 1"
    "b0 \<noteq> 0" by auto
  from component_finite [OF ab(3,4,5)] have
    fr: "isfinite (R1 (u0, y0)) \<or> isfinite (R0 (u0, y0))"
    and fl: "isfinite (L1 (u0, y0)) \<or> isfinite (L0 (u0, y0))"
    by (simp_all add: R1_def R0_def L1_def L0_def ab)
  have "\<exists>r. right = Fin r \<and> 0 \<le> r"
  proof (rule disjE [OF fr])
    assume "isfinite (R1 (u0, y0))"
    then show ?thesis using rb [OF _ p0] by (intro below_finite [OF right(1)]) auto
  next
    assume "isfinite (R0 (u0, y0))"
    then show ?thesis using rb [OF _ p0] by (intro below_finite [OF right(1)]) auto
  qed
  then obtain r where r: "right = Fin r" "0 \<le> r" by blast
  have "\<exists>l. left = Fin l \<and> l \<le> 0"
  proof (rule disjE [OF fl])
    assume "isfinite (L1 (u0, y0))"
    then show ?thesis using lb [OF _ p0] by (intro above_finite [OF left(1)]) auto
  next
    assume "isfinite (L0 (u0, y0))"
    then show ?thesis using lb [OF _ p0] by (intro above_finite [OF left(1)]) auto
  qed
  then obtain l where l: "left = Fin l" "l \<le> 0" by blast
  have "\<forall>s. l \<le> s \<and> s \<le> r \<longrightarrow> in_unit_cube (point_at U d s)"
  proof (intro allI impI)
    fix s assume s: "l \<le> s \<and> s \<le> r"
    then have bs: "below s right" and as: "above s left"
      by (simp_all add: r l below_def above_def)
    have "\<forall>v\<in>set (point_at U d s). \<exists>x. v = Fin x \<and> 0 \<le> x \<and> x \<le> 1"
    proof
      fix v assume "v \<in> set (point_at U d s)"
      then obtain u y where p: "(u, y) \<in> set z" and v: "v = fl_add u (fl_mul (Fin s) y)"
        by (auto simp: point_at_def z_def)
      from comp [OF p] obtain a b where ab: "u = Fin a" "y = Fin b" "0 \<le> a" "a \<le> 1" by blast
      from rb [OF bs p] lb [OF as p]
      have "0 \<le> a + s * b \<and> a + s * b \<le> 1"
        by (intro component_in_cube [OF ab(3,4)]) (simp_all add: R1_def R0_def L1_def L0_def ab)
      with v ab show "\<exists>x. v = Fin x \<and> 0 \<le> x \<and> x \<le> 1" by simp
    qed
    moreover from ne have "point_at U d s \<noteq> []" by (simp add: point_at_def z_def)
    ultimately show "in_unit_cube (point_at U d s)" by (simp add: in_unit_cube_def)
  qed
  with sb r l show ?thesis by auto
qed

section \<open>Loops\<close>

lemma while_loop_rule_aux:
  assumes "while_loop c b s = Some t"
  shows "(\<forall>x. P x \<and> c x \<longrightarrow> P (b x)) \<longrightarrow> P s \<longrightarrow> P t \<and> \<not> c t"
proof (rule while_loop.raw_induct
    [where P = "\<lambda>c b s t. (\<forall>x. P x \<and> c x \<longrightarrow> P (b x)) \<longrightarrow> P s \<longrightarrow> P t \<and> \<not> c t", OF _ assms])
  fix w :: "('a \<Rightarrow> bool) \<Rightarrow> ('a \<Rightarrow> 'a) \<Rightarrow> 'a \<Rightarrow> 'a option" and c b s t
  assume IH: "\<And>c b s t. w c b s = Some t \<Longrightarrow>
      (\<forall>x. P x \<and> c x \<longrightarrow> P (b x)) \<longrightarrow> P s \<longrightarrow> P t \<and> \<not> c t"
    and eq: "(if c s then w c b (b s) else Some s) = Some t"
  show "(\<forall>x. P x \<and> c x \<longrightarrow> P (b x)) \<longrightarrow> P s \<longrightarrow> P t \<and> \<not> c t"
  proof (cases "c s")
    case True
    with eq have "w c b (b s) = Some t" by simp
    from IH [OF this] True show ?thesis by blast
  next
    case False
    with eq have "t = s" by simp
    with False show ?thesis by simp
  qed
qed

lemma while_loop_rule:
  assumes "while_loop c b s = Some t" and "P s" and "\<And>x. P x \<Longrightarrow> c x \<Longrightarrow> P (b x)"
  shows "P t \<and> \<not> c t"
  using while_loop_rule_aux [OF assms(1), of P] assms(2,3) by blast

lemma while_loop_terminates:
  assumes "\<not> c ((b ^^ k) s)"
  shows "\<exists>t. while_loop c b s = Some t"
  using assms
proof (induction k arbitrary: s)
  case 0
  then show ?case by (subst while_loop.simps) simp
next
  case (Suc k)
  show ?case
  proof (cases "c s")
    case True
    from Suc.prems have "\<not> c ((b ^^ k) (b s))" by (simp add: funpow_swap1)
    from Suc.IH [OF this] obtain t where "while_loop c b (b s) = Some t" by blast
    with True show ?thesis by (subst while_loop.simps) simp
  next
    case False
    then show ?thesis by (subst while_loop.simps) simp
  qed
qed

lemma while_loop_first:
  assumes "\<not> c ((f ^^ k) s)"
  shows "\<exists>j\<le>k. while_loop c f s = Some ((f ^^ j) s) \<and> \<not> c ((f ^^ j) s) \<and> (\<forall>i<j. c ((f ^^ i) s))"
  using assms
proof (induction k arbitrary: s)
  case 0
  then have "while_loop c f s = Some s" by (subst while_loop.simps) simp
  with 0 show ?case by simp
next
  case (Suc k)
  show ?case
  proof (cases "c s")
    case False
    then have "while_loop c f s = Some s" by (subst while_loop.simps) simp
    with False show ?thesis by (intro exI [of _ 0]) simp
  next
    case True
    from Suc.prems have "\<not> c ((f ^^ k) (f s))" by (simp add: funpow_swap1)
    from Suc.IH [OF this] obtain j where j: "j \<le> k"
      "while_loop c f (f s) = Some ((f ^^ j) (f s))" "\<not> c ((f ^^ j) (f s))"
      "\<forall>i<j. c ((f ^^ i) (f s))" by blast
    from True j(2) have w: "while_loop c f s = Some ((f ^^ Suc j) s)"
      by (subst while_loop.simps) (simp add: funpow_swap1)
    have "\<forall>i<Suc j. c ((f ^^ i) s)"
    proof (intro allI impI)
      fix i assume i: "i < Suc j"
      show "c ((f ^^ i) s)"
      proof (cases i)
        case 0 with True show ?thesis by simp
      next
        case (Suc i')
        with i j(4) show ?thesis by (simp add: funpow_swap1)
      qed
    qed
    with w j(1,3) show ?thesis by (intro exI [of _ "Suc j"]) (simp add: funpow_swap1)
  qed
qed

lemma while_loop_raising_Inr:
  assumes "\<not> c ((f ^^ k) s)"
  shows "while_loop_raising c (\<lambda>x. Inr (f x)) s = map_option Inr (while_loop c f s)"
  using assms
proof (induction k arbitrary: s)
  case 0
  then show ?case by (subst while_loop_raising.simps, subst while_loop.simps) simp
next
  case (Suc k)
  show ?case
  proof (cases "c s")
    case False
    then show ?thesis by (subst while_loop_raising.simps, subst while_loop.simps) simp
  next
    case True
    from Suc.prems have "\<not> c ((f ^^ k) (f s))" by (simp add: funpow_swap1)
    from Suc.IH [OF this] True show ?thesis
      by (subst while_loop_raising.simps, subst while_loop.simps) simp
  qed
qed

lemma while_loop_raising_total:
  assumes "\<And>x. b x = Inr (f x)" and "\<not> c ((f ^^ k) s)"
  shows "while_loop_raising c b s = map_option Inr (while_loop c f s)"
proof -
  from assms(1) have "b = (\<lambda>x. Inr (f x))" by auto
  with while_loop_raising_Inr [where c = c and f = f and k = k and s = s] assms(2) show ?thesis by simp
qed

lemma while_loop_raising_reaches_aux:
  assumes "while_loop_raising c b s = Some r"
  shows "(\<forall>x. b x = Inr (f x)) \<longrightarrow> (\<exists>k. \<not> c ((f ^^ k) s))"
proof (rule while_loop_raising.raw_induct
    [where P = "\<lambda>c b s r. (\<forall>x. b x = Inr (f x)) \<longrightarrow> (\<exists>k. \<not> c ((f ^^ k) s))", OF _ assms])
  fix w :: "('a \<Rightarrow> bool) \<Rightarrow> ('a \<Rightarrow> error + 'a) \<Rightarrow> 'a \<Rightarrow> (error + 'a) option" and c b s r
  assume IH: "\<And>c b s r. w c b s = Some r \<Longrightarrow> (\<forall>x. b x = Inr (f x)) \<longrightarrow> (\<exists>k. \<not> c ((f ^^ k) s))"
    and eq: "(if c s then case b s of Inl e \<Rightarrow> Some (Inl e) | Inr v \<Rightarrow> w c b v else Some (Inr s))
             = Some r"
  show "(\<forall>x. b x = Inr (f x)) \<longrightarrow> (\<exists>k. \<not> c ((f ^^ k) s))"
  proof
    assume b: "\<forall>x. b x = Inr (f x)"
    show "\<exists>k. \<not> c ((f ^^ k) s)"
    proof (cases "c s")
      case False
      then have "\<not> c ((f ^^ 0) s)" by simp
      then show ?thesis by blast
    next
      case True
      with eq b have "w c b (f s) = Some r" by simp
      from IH [OF this] b obtain k where "\<not> c ((f ^^ k) (f s))" by blast
      then have "\<not> c ((f ^^ Suc k) s)" by (simp add: funpow_swap1)
      then show ?thesis by blast
    qed
  qed
qed

lemma while_loop_raising_result:
  assumes b: "\<And>x. b x = Inr (f x)" and r: "while_loop_raising c b s = Some r"
  shows "\<exists>k. r = Inr ((f ^^ k) s) \<and> \<not> c ((f ^^ k) s) \<and> (\<forall>i<k. c ((f ^^ i) s))"
proof -
  from while_loop_raising_reaches_aux [OF r, of f] b obtain k where k: "\<not> c ((f ^^ k) s)" by blast
  from while_loop_first [where c = c and f = f and k = k and s = s] k obtain j where
    j: "while_loop c f s = Some ((f ^^ j) s)" "\<not> c ((f ^^ j) s)" "\<forall>i<j. c ((f ^^ i) s)" by blast
  from while_loop_raising_total [where b = b and f = f and c = c and k = k and s = s] b k
  have "while_loop_raising c b s = map_option Inr (while_loop c f s)" by blast
  with r j(1) have "r = Inr ((f ^^ j) s)" by simp
  with j(2,3) show ?thesis by blast
qed

lemma new_proposal_init_bracket:
  assumes "new_proposal_init env key seed_point pf gs calls = Inr init"
    and "draws_ok env"
  shows "bracket_ok init \<and> carry_t (fst init) \<noteq> PInf \<and> carry_t (fst init) \<noteq> NInf"
proof -
  have z: "fl_le (Fin 0) (Fin 0)" by (simp add: fl_le_def fl_eq_def)
  from assms(2) have d: "\<And>k lo hi. random_uniform env k lo hi \<noteq> PInf \<and> random_uniform env k lo hi \<noteq> NInf"
    by (simp add: draws_ok_def)
  from assms(1) show ?thesis
    by (auto simp: new_proposal_init_def split3_def grad_call_def forward_call_def Let_def
        pick_point_in_interval_def bracket_ok_def z d
        split: if_splits sum.splits prod.splits dest: slice_bounds_Inr)
qed

lemma new_proposal_body_bracket:
  assumes "draws_ok env"
    and "bracket_ok x \<and> carry_t (fst x) \<noteq> PInf \<and> carry_t (fst x) \<noteq> NInf"
  shows "bracket_ok (new_proposal_body env seed_point ms log_L_c x)
         \<and> carry_t (fst (new_proposal_body env seed_point ms log_L_c x)) \<noteq> PInf
         \<and> carry_t (fst (new_proposal_body env seed_point ms log_L_c x)) \<noteq> NInf"
proof -
  obtain carry calls where x: "x = (carry, calls)" by (cases x)
  from assms(1) have d: "\<And>k lo hi. random_uniform env k lo hi \<noteq> PInf \<and> random_uniform env k lo hi \<noteq> NInf"
    and a: "\<And>k. \<exists>a. random_uniform env k (Fin 0) (Fin 1) = Fin a \<and> 0 \<le> a \<and> a < 1"
    by (simp_all add: draws_ok_def)
  obtain l' r' where sh: "shrink_interval env (subkey env (carry_key carry) 3 2) (carry_t carry)
      (carry_left carry) (carry_right carry) (carry_log_L carry) log_L_c (log_L0 seed_point) ms = (l', r')"
    by (cases "shrink_interval env (subkey env (carry_key carry) 3 2) (carry_t carry)
      (carry_left carry) (carry_right carry) (carry_log_L carry) log_L_c (log_L0 seed_point) ms")
  from assms(2) x have b: "fl_le (carry_left carry) (Fin 0)" "fl_le (Fin 0) (carry_right carry)"
    "carry_t carry \<noteq> PInf" "carry_t carry \<noteq> NInf"
    by (simp_all add: bracket_ok_def)
  from shrink_interval_bracket [OF b _ sh] a have "fl_le l' (Fin 0) \<and> fl_le (Fin 0) r'" by blast
  with sh show ?thesis
    by (simp add: new_proposal_body_def x bracket_ok_def pick_point_in_interval_def
        forward_call_def Let_def d split3_def)
qed

lemma funpow_invariant:
  "P s \<Longrightarrow> (\<And>x. P x \<Longrightarrow> P (f x)) \<Longrightarrow> P ((f ^^ k) s)"
  by (induction k) auto

lemma draws_ok_env0: "draws_ok env0"
  by (auto simp: draws_ok_def env0_def midpoint_uniform_def split: fval.splits intro: exI [of _ "1 / 2"])

lemma init_env0:
  "new_proposal_init env0 0 seed0 True False 0 =
     Inr (\<lparr>carry_key = 1, carry_direction = [Fin 1], carry_left = Fin (- (1 / 3)),
           carry_right = Fin (2 / 3), carry_t = Fin (1 / 6), carry_point_U = [Fin (1 / 2)],
           carry_log_L = Fin 0, carry_num_likelihood_evaluations = 0\<rparr>, 1)"
  by (simp add: new_proposal_init_def env0_def seed0_def split3_def sample_direction_def
      slice_bounds_def Let_def fl_sub_def where_sel_def fl_ge_def fl_le_def fl_eq_def
      minimum_def maximum_def pick_point_in_interval_def midpoint_uniform_def forward_call_def
      spike_forward_def fl_inf_def)

section \<open>Termination of a slice step\<close>

lemma draws_alpha:
  assumes "draws_progress env c"
  shows "\<exists>a. random_uniform env key (Fin 0) (Fin 1) = Fin a \<and> 0 \<le> a \<and> a \<le> 1"
proof -
  from assms have "\<exists>t. random_uniform env key (Fin 0) (Fin 1) = Fin t \<and> 0 \<le> t \<and> t \<le> 1
                 \<and> ((0::real) < 1 \<longrightarrow> t \<noteq> 0 \<and> (t < 0 \<longrightarrow> 1 - t \<le> c * (1 - 0))
                                \<and> (0 < t \<longrightarrow> t - 0 \<le> c * (1 - 0)))"
    unfolding draws_progress_def by (elim conjE allE [of _ key] allE [of _ "0::real"] allE [of _ "1::real"]) simp
  then show ?thesis by blast
qed

lemma shrink_interval_progress:
  assumes d: "draws_progress env c"
    and b: "l \<le> 0" "0 \<le> r" "l \<le> t" "t \<le> r"
    and p: "l < r \<longrightarrow> t \<noteq> 0 \<and> (t < 0 \<longrightarrow> r - t \<le> c * (r - l)) \<and> (0 < t \<longrightarrow> t - l \<le> c * (r - l))"
  shows "\<exists>l' r'. shrink_interval env key (Fin t) (Fin l) (Fin r) lp lc lz ms = (Fin l', Fin r')
           \<and> l \<le> l' \<and> l' \<le> 0 \<and> 0 \<le> r' \<and> r' \<le> r \<and> r' - l' \<le> c * (r - l)"
proof -
  from draws_alpha [OF d] obtain a where a: "random_uniform env key (Fin 0) (Fin 1) = Fin a"
    "0 \<le> a" "a \<le> 1" by blast
  from d have c: "0 \<le> c" by (simp add: draws_progress_def)
  consider "t = 0" | "t < 0" | "0 < t" by linarith
  then show ?thesis
  proof cases
    case 1
    with p b have "l = r" by auto
    with 1 b c show ?thesis
      by (simp add: shrink_interval_def where_sel_def fl_greater_def Let_def)
  next
    case 2
    with b have lr: "l < r" by simp
    with p 2 have w: "r - t \<le> c * (r - l)" by simp
    have at: "t \<le> a * t" "a * t \<le> 0"
      using a(2,3) 2 by (simp_all add: mult_le_cancel_right2 mult_nonneg_nonpos)
    show ?thesis
    proof (cases ms)
      case False
      with 2 b w show ?thesis
        by (simp add: shrink_interval_def where_sel_def fl_greater_def Let_def)
    next
      case True
      have "shrink_interval env key (Fin t) (Fin l) (Fin r) lp lc lz ms = (Fin (a * t), Fin r)"
        using True 2 by (simp add: shrink_interval_def where_sel_def fl_greater_def Let_def a(1))
      moreover have "l \<le> a * t" using at(1) b(3) by simp
      moreover have "r - a * t \<le> c * (r - l)" using at(1) w by simp
      ultimately show ?thesis using at(2) b by simp
    qed
  next
    case 3
    with b have lr: "l < r" by simp
    with p 3 have w: "t - l \<le> c * (r - l)" by simp
    have at: "a * t \<le> t" "0 \<le> a * t"
      using a(2,3) 3 by (simp_all add: mult_le_cancel_right1)
    show ?thesis
    proof (cases ms)
      case False
      with 3 b w show ?thesis
        by (simp add: shrink_interval_def where_sel_def fl_greater_def Let_def)
    next
      case True
      have "shrink_interval env key (Fin t) (Fin l) (Fin r) lp lc lz ms = (Fin l, Fin (a * t))"
        using True 3 by (simp add: shrink_interval_def where_sel_def fl_greater_def Let_def a(1))
      moreover have "a * t \<le> r" using at(1) b(4) by simp
      moreover have "a * t - l \<le> c * (r - l)" using at(1) w by simp
      ultimately show ?thesis using at(2) b by simp
    qed
  qed
qed

lemma pick_point_progress:
  assumes d: "draws_progress env c" and b: "l \<le> 0" "0 \<le> r"
  shows "\<exists>t. pick_point_in_interval env key U dir (Fin l) (Fin r) = (point_at U dir t, Fin t)
           \<and> l \<le> t \<and> t \<le> r
           \<and> (l < r \<longrightarrow> t \<noteq> 0 \<and> (t < 0 \<longrightarrow> r - t \<le> c * (r - l)) \<and> (0 < t \<longrightarrow> t - l \<le> c * (r - l)))"
proof -
  from d b obtain t where "random_uniform env key (Fin l) (Fin r) = Fin t" "l \<le> t" "t \<le> r"
    "l < r \<longrightarrow> t \<noteq> 0 \<and> (t < 0 \<longrightarrow> r - t \<le> c * (r - l)) \<and> (0 < t \<longrightarrow> t - l \<le> c * (r - l))"
    unfolding draws_progress_def by blast
  then show ?thesis by (auto simp: pick_point_in_interval_def point_at_def Let_def)
qed

lemma new_proposal_body_progress:
  assumes d: "draws_progress env c" and inv: "slice_inv c (U0 seed_point) x"
  shows "slice_inv c (U0 seed_point) (new_proposal_body env seed_point ms log_L_c x)
         \<and> width (new_proposal_body env seed_point ms log_L_c x) \<le> c * width x"
proof -
  obtain carry calls where x: "x = (carry, calls)" by (cases x)
  from inv x obtain l r t where i: "carry_left carry = Fin l" "carry_right carry = Fin r"
    "carry_t carry = Fin t" "l \<le> 0" "0 \<le> r" "l \<le> t" "t \<le> r"
    "l < r \<longrightarrow> t \<noteq> 0 \<and> (t < 0 \<longrightarrow> r - t \<le> c * (r - l)) \<and> (0 < t \<longrightarrow> t - l \<le> c * (r - l))"
    "\<forall>s. l \<le> s \<and> s \<le> r \<longrightarrow> in_unit_cube (point_at (U0 seed_point) (carry_direction carry) s)"
    unfolding slice_inv_def by auto
  from shrink_interval_progress [OF d i(4-8), of "subkey env (carry_key carry) 3 2"
      "carry_log_L carry" log_L_c "log_L0 seed_point" ms]
  obtain l' r' where s: "shrink_interval env (subkey env (carry_key carry) 3 2) (Fin t) (Fin l) (Fin r)
       (carry_log_L carry) log_L_c (log_L0 seed_point) ms = (Fin l', Fin r')"
    "l \<le> l'" "l' \<le> 0" "0 \<le> r'" "r' \<le> r" "r' - l' \<le> c * (r - l)" by blast
  from pick_point_progress [OF d s(3,4), of "subkey env (carry_key carry) 3 1" "U0 seed_point"
      "carry_direction carry"]
  obtain t' where p: "pick_point_in_interval env (subkey env (carry_key carry) 3 1) (U0 seed_point)
        (carry_direction carry) (Fin l') (Fin r')
        = (point_at (U0 seed_point) (carry_direction carry) t', Fin t')"
    "l' \<le> t'" "t' \<le> r'"
    "l' < r' \<longrightarrow> t' \<noteq> 0 \<and> (t' < 0 \<longrightarrow> r' - t' \<le> c * (r' - l')) \<and> (0 < t' \<longrightarrow> t' - l' \<le> c * (r' - l'))"
    by blast
  have b: "new_proposal_body env seed_point ms log_L_c x =
      (\<lparr>carry_key = subkey env (carry_key carry) 3 0, carry_direction = carry_direction carry,
        carry_left = Fin l', carry_right = Fin r', carry_t = Fin t',
        carry_point_U = point_at (U0 seed_point) (carry_direction carry) t',
        carry_log_L = model_forward env (point_at (U0 seed_point) (carry_direction carry) t'),
        carry_num_likelihood_evaluations = carry_num_likelihood_evaluations carry + 1\<rparr>, Suc calls)"
    unfolding x new_proposal_body_def
    by (simp add: split3_def i(1-3) s(1) p(1) forward_call_def Let_def del: One_nat_def)
  have cube: "\<forall>s. l' \<le> s \<and> s \<le> r' \<longrightarrow>
      in_unit_cube (point_at (U0 seed_point) (carry_direction carry) s)"
    using i(9) s(2,5) by auto
  have "slice_inv c (U0 seed_point) (new_proposal_body env seed_point ms log_L_c x)"
    unfolding b slice_inv_def using s(3,4) p(2-4) cube by simp
  moreover have "width (new_proposal_body env seed_point ms log_L_c x) \<le> c * width x"
    unfolding b unfolding x width_def using s(6) by (simp add: i(1,2))
  ultimately show ?thesis by blast
qed

lemma proper_direction_scale:
  assumes "proper_direction v" and "r \<noteq> 0"
  shows "proper_direction (map (\<lambda>x. fl_div x (Fin r)) v)"
proof -
  from assms(1) obtain y where y: "y \<in> set v" "y \<noteq> Fin 0" "isfinite y"
    by (auto simp: proper_direction_def)
  from y(2,3) obtain q where q: "y = Fin q" "q \<noteq> 0" by (cases y) auto
  with assms(2) have "fl_div y (Fin r) \<noteq> Fin 0" by simp
  with y(1) have "\<exists>x\<in>set (map (\<lambda>x. fl_div x (Fin r)) v). x \<noteq> Fin 0" by auto
  moreover have "\<forall>x\<in>set (map (\<lambda>x. fl_div x (Fin r)) v). isfinite x"
  proof
    fix x assume "x \<in> set (map (\<lambda>x. fl_div x (Fin r)) v)"
    then obtain z where z: "z \<in> set v" "x = fl_div z (Fin r)" by auto
    with assms(1) have "isfinite z" by (simp add: proper_direction_def)
    then obtain p where "z = Fin p" by (cases z) auto
    with z(2) assms(2) show "isfinite x" by simp
  qed
  ultimately show ?thesis by (simp add: proper_direction_def)
qed

lemma sample_direction_proper:
  assumes "directions_ok env" and "0 < n"
  shows "length (sample_direction env key n) = n \<and> proper_direction (sample_direction env key n)"
proof (cases "n = 1")
  case True
  then show ?thesis by (simp add: sample_direction_def proper_direction_def)
next
  case False
  with assms(2) have n: "1 < n" by simp
  with assms(1) have v: "length (random_normal env key n) = n"
    "proper_direction (random_normal env key n)" by (simp_all add: directions_ok_def)
  from v(2) have fin: "\<forall>x\<in>set (random_normal env key n). isfinite x"
    and nz: "\<not> (\<forall>x\<in>set (random_normal env key n). x = Fin 0)"
    by (auto simp: proper_direction_def)
  from assms(1) fin obtain r where r: "linalg_norm env (random_normal env key n) = Fin r"
    "r = 0 \<longleftrightarrow> (\<forall>x\<in>set (random_normal env key n). x = Fin 0)"
    unfolding directions_ok_def by blast
  with nz have "r \<noteq> 0" by blast
  from proper_direction_scale [OF v(2) this] v(1) False r(1) show ?thesis
    by (simp add: sample_direction_def Let_def)
qed

lemma gradient_direction_proper:
  assumes ok: "directions_ok env" and ne: "U \<noteq> []"
    and dir: "direction = where_sel (fl_eq (linalg_norm env (grad_forward env U)) (Fin 0)
                             \<or> \<not> isfinite (linalg_norm env (grad_forward env U)))
                          (sample_direction env key (length U))
                          (map (\<lambda>x. fl_div x (linalg_norm env (grad_forward env U)))
                             (grad_forward env U))"
  shows "length direction = length U \<and> proper_direction direction"
proof -
  define g where "g = grad_forward env U"
  from ok have g: "length g = length U" "\<forall>x\<in>set g. isfinite x"
    by (simp_all add: directions_ok_def g_def)
  from ok g(2) obtain r where r: "linalg_norm env g = Fin r" "r = 0 \<longleftrightarrow> (\<forall>x\<in>set g. x = Fin 0)"
    unfolding directions_ok_def by blast
  from ne have n: "0 < length U" by simp
  show ?thesis
  proof (cases "r = 0")
    case True
    with r(1) have "direction = sample_direction env key (length U)"
      unfolding dir g_def [symmetric] by (simp add: where_sel_def fl_eq_def)
    with sample_direction_proper [OF ok n] show ?thesis by simp
  next
    case False
    with r(1) have d: "direction = map (\<lambda>x. fl_div x (Fin r)) g"
      unfolding dir g_def [symmetric] by (simp add: where_sel_def fl_eq_def)
    from False r(2) g(2) have "proper_direction g" by (auto simp: proper_direction_def)
    from proper_direction_scale [OF this False] g(1) d show ?thesis by simp
  qed
qed

lemma new_proposal_init_progress:
  assumes d: "draws_progress env c" and ok: "directions_ok env"
    and cube: "in_unit_cube (U0 seed_point)"
  shows "\<exists>init. new_proposal_init env key seed_point True gs calls = Inr init
           \<and> slice_inv c (U0 seed_point) init"
proof (cases gs)
  case False
  define dir where "dir = sample_direction env (subkey env key 3 1) (length (U0 seed_point))"
  from cube have ne: "0 < length (U0 seed_point)" by (simp add: in_unit_cube_def)
  from sample_direction_proper [OF ok ne] have p: "length dir = length (U0 seed_point)"
    "proper_direction dir" by (simp_all add: dir_def)
  from slice_bounds_cube [OF cube p] obtain l r where
    sb: "slice_bounds (U0 seed_point) dir = Inr (Fin l, Fin r)" "l \<le> 0" "0 \<le> r"
    "\<forall>s. l \<le> s \<and> s \<le> r \<longrightarrow> in_unit_cube (point_at (U0 seed_point) dir s)" by blast
  from pick_point_progress [OF d sb(2,3), of "subkey env key 3 2" "U0 seed_point" dir]
  obtain t where t: "pick_point_in_interval env (subkey env key 3 2) (U0 seed_point) dir (Fin l) (Fin r)
       = (point_at (U0 seed_point) dir t, Fin t)" "l \<le> t" "t \<le> r"
    "l < r \<longrightarrow> t \<noteq> 0 \<and> (t < 0 \<longrightarrow> r - t \<le> c * (r - l)) \<and> (0 < t \<longrightarrow> t - l \<le> c * (r - l))"
    by blast
  have "new_proposal_init env key seed_point True gs calls =
    Inr (\<lparr>carry_key = subkey env key 3 0, carry_direction = dir, carry_left = Fin l,
          carry_right = Fin r, carry_t = Fin t,
          carry_point_U = point_at (U0 seed_point) dir t,
          carry_log_L = model_forward env (point_at (U0 seed_point) dir t),
          carry_num_likelihood_evaluations = 0\<rparr>, Suc calls)"
    unfolding new_proposal_init_def
    by (simp add: False split3_def Let_def dir_def [symmetric] sb(1) t(1) forward_call_def
        del: One_nat_def)
  moreover have "slice_inv c (U0 seed_point)
      (\<lparr>carry_key = subkey env key 3 0, carry_direction = dir, carry_left = Fin l,
          carry_right = Fin r, carry_t = Fin t,
          carry_point_U = point_at (U0 seed_point) dir t,
          carry_log_L = model_forward env (point_at (U0 seed_point) dir t),
          carry_num_likelihood_evaluations = 0\<rparr>, Suc calls)"
    unfolding slice_inv_def using sb(2-4) t(2-4) by simp
  ultimately show ?thesis by simp
next
  case True
  define dir where "dir = where_sel (fl_eq (linalg_norm env (grad_forward env (U0 seed_point))) (Fin 0)
                             \<or> \<not> isfinite (linalg_norm env (grad_forward env (U0 seed_point))))
                          (sample_direction env (subkey env key 3 1) (length (U0 seed_point)))
                          (map (\<lambda>x. fl_div x (linalg_norm env (grad_forward env (U0 seed_point))))
                             (grad_forward env (U0 seed_point)))"
  from cube have ne: "U0 seed_point \<noteq> []" by (simp add: in_unit_cube_def)
  from gradient_direction_proper [OF ok ne dir_def] have p: "length dir = length (U0 seed_point)"
    "proper_direction dir" by simp_all
  from slice_bounds_cube [OF cube p] obtain l r where
    sb: "slice_bounds (U0 seed_point) dir = Inr (Fin l, Fin r)" "l \<le> 0" "0 \<le> r"
    "\<forall>s. l \<le> s \<and> s \<le> r \<longrightarrow> in_unit_cube (point_at (U0 seed_point) dir s)" by blast
  have z: "(0::real) \<le> 0" by simp
  from pick_point_progress [OF d z sb(3), of "subkey env key 3 2" "U0 seed_point" dir]
  obtain t where t: "pick_point_in_interval env (subkey env key 3 2) (U0 seed_point) dir (Fin 0) (Fin r)
       = (point_at (U0 seed_point) dir t, Fin t)" "0 \<le> t" "t \<le> r"
    "0 < r \<longrightarrow> t \<noteq> 0 \<and> (t < 0 \<longrightarrow> r - t \<le> c * (r - 0)) \<and> (0 < t \<longrightarrow> t - 0 \<le> c * (r - 0))"
    by blast
  have "new_proposal_init env key seed_point True gs calls =
    Inr (\<lparr>carry_key = subkey env key 3 0, carry_direction = dir, carry_left = Fin 0,
          carry_right = Fin r, carry_t = Fin t,
          carry_point_U = point_at (U0 seed_point) dir t,
          carry_log_L = model_forward env (point_at (U0 seed_point) dir t),
          carry_num_likelihood_evaluations = 1\<rparr>, Suc (Suc calls))"
    unfolding new_proposal_init_def
    by (simp add: True split3_def Let_def grad_call_def dir_def [symmetric] sb(1) t(1)
        forward_call_def del: One_nat_def)
  moreover have "slice_inv c (U0 seed_point)
      (\<lparr>carry_key = subkey env key 3 0, carry_direction = dir, carry_left = Fin 0,
          carry_right = Fin r, carry_t = Fin t,
          carry_point_U = point_at (U0 seed_point) dir t,
          carry_log_L = model_forward env (point_at (U0 seed_point) dir t),
          carry_num_likelihood_evaluations = 1\<rparr>, Suc (Suc calls))"
    unfolding slice_inv_def using sb(2-4) t(2-4) by simp
  ultimately show ?thesis by simp
qed

lemma slice_inv_funpow:
  assumes d: "draws_progress env c" and inv: "slice_inv c (U0 seed_point) init"
  shows "slice_inv c (U0 seed_point) ((new_proposal_body env seed_point ms log_L_c ^^ k) init)
         \<and> width ((new_proposal_body env seed_point ms log_L_c ^^ k) init) \<le> c ^ k * width init"
proof (induction k)
  case 0
  from inv show ?case by simp
next
  case (Suc k)
  let ?x = "(new_proposal_body env seed_point ms log_L_c ^^ k) init"
  from Suc have i: "slice_inv c (U0 seed_point) ?x" and w: "width ?x \<le> c ^ k * width init"
    by simp_all
  from d have c: "0 \<le> c" by (simp add: draws_progress_def)
  from new_proposal_body_progress [OF d i, where ms = ms and log_L_c = log_L_c]
  have s: "slice_inv c (U0 seed_point) (new_proposal_body env seed_point ms log_L_c ?x)"
    and "width (new_proposal_body env seed_point ms log_L_c ?x) \<le> c * width ?x" by simp_all
  moreover from w c have "c * width ?x \<le> c * (c ^ k * width init)"
    by (rule mult_left_mono)
  ultimately have "width (new_proposal_body env seed_point ms log_L_c ?x) \<le> c ^ Suc k * width init"
    by (simp add: mult.assoc)
  with s show ?case by simp
qed

lemma slice_inv_width:
  assumes "slice_inv c U x"
  shows "0 \<le> width x
         \<and> (width x \<le> 2 * finfo_eps env \<longrightarrow> \<not> new_proposal_cond env seed_point log_L_c x)
         \<and> in_unit_cube (carry_point_U (fst x))"
proof -
  obtain carry calls where x: "x = (carry, calls)" by (cases x)
  from assms x obtain l r t where i: "carry_left carry = Fin l" "carry_right carry = Fin r"
    "l \<le> t" "t \<le> r"
    "\<forall>s. l \<le> s \<and> s \<le> r \<longrightarrow> in_unit_cube (point_at U (carry_direction carry) s)"
    "carry_point_U carry = point_at U (carry_direction carry) t"
    unfolding slice_inv_def by auto
  from i(3,4) have "0 \<le> width x" by (simp add: width_def x i(1,2))
  moreover have "width x \<le> 2 * finfo_eps env \<longrightarrow> \<not> new_proposal_cond env seed_point log_L_c x"
    by (auto simp: width_def x i(1,2) new_proposal_cond_def Let_def fl_sub_def fl_le_def fl_eq_def)
  moreover from i(3-6) have "in_unit_cube (carry_point_U (fst x))" by (simp add: x)
  ultimately show ?thesis by blast
qed

lemma exists_collapse:
  assumes d: "draws_progress env c" and eps: "0 < finfo_eps env"
    and inv: "slice_inv c (U0 seed_point) init"
  shows "\<exists>k. \<not> new_proposal_cond env seed_point log_L_c
                 ((new_proposal_body env seed_point ms log_L_c ^^ k) init)"
proof -
  from slice_inv_width [OF inv] have w0: "0 \<le> width init" by blast
  from d have c: "c < 1" by (simp add: draws_progress_def)
  from eps w0 have "0 < 2 * finfo_eps env / (width init + 1)" by simp
  from real_arch_pow_inv [OF this c] obtain k where
    k: "c ^ k < 2 * finfo_eps env / (width init + 1)" by blast
  let ?x = "(new_proposal_body env seed_point ms log_L_c ^^ k) init"
  from slice_inv_funpow [OF d inv, where ms = ms and log_L_c = log_L_c and k = k]
  have i: "slice_inv c (U0 seed_point) ?x" and w: "width ?x \<le> c ^ k * width init" by simp_all
  from k w0 have "c ^ k * width init \<le> 2 * finfo_eps env / (width init + 1) * width init"
    by (intro mult_right_mono) simp_all
  also have "\<dots> = 2 * finfo_eps env * (width init / (width init + 1))" by simp
  also have "\<dots> \<le> 2 * finfo_eps env * 1"
    using w0 eps by (intro mult_left_mono) simp_all
  finally have "width ?x \<le> 2 * finfo_eps env" using w by simp
  with slice_inv_width [OF i, where env = env and seed_point = seed_point and log_L_c = log_L_c]
  show ?thesis by blast
qed

section \<open>The chain of slice steps\<close>

lemma new_proposal_init_count:
  assumes "new_proposal_init env key seed_point pf gs calls = Inr (carry, calls')"
  shows "int calls' = int calls + carry_num_likelihood_evaluations carry + 1
         \<and> 0 \<le> carry_num_likelihood_evaluations carry"
  using assms
  by (auto simp: new_proposal_init_def split3_def grad_call_def forward_call_def Let_def
      pick_point_in_interval_def split: if_splits sum.splits prod.splits)

lemma new_proposal_body_count:
  assumes "int calls' = int calls + carry_num_likelihood_evaluations carry + 1
         \<and> 0 \<le> carry_num_likelihood_evaluations carry"
    and "new_proposal_body env seed_point ms log_L_c (carry, calls') = (carry2, calls2)"
  shows "int calls2 = int calls + carry_num_likelihood_evaluations carry2 + 1
         \<and> 0 \<le> carry_num_likelihood_evaluations carry2"
  using assms
  by (auto simp: new_proposal_body_def split3_def forward_call_def Let_def
      pick_point_in_interval_def split: prod.splits)

lemma not_cond_exit:
  "\<not> new_proposal_cond env seed_point log_L_c (carry, calls) \<longleftrightarrow>
     (accepted log_L_c (log_L0 seed_point) (carry_log_L carry) \<or> collapsed env carry)"
  by (auto simp: new_proposal_cond_def accepted_def collapsed_def Let_def)

lemma new_proposal_loop_result:
  assumes "new_proposal_loop env key seed_point ms pf gs log_L_c calls = Some (Inr (carry, calls'))"
  shows "(accepted log_L_c (log_L0 seed_point) (carry_log_L carry) \<or> collapsed env carry)
         \<and> int calls' = int calls + carry_num_likelihood_evaluations carry + 1
         \<and> 0 \<le> carry_num_likelihood_evaluations carry"
proof -
  from assms obtain init where init: "new_proposal_init env key seed_point pf gs calls = Inr init"
    and loop: "while_loop (new_proposal_cond env seed_point log_L_c)
        (new_proposal_body env seed_point ms log_L_c) init = Some (carry, calls')"
    by (auto simp: new_proposal_loop_def split: sum.splits)
  let ?P = "\<lambda>x :: 'a Carry \<times> nat. int (snd x) = int calls + carry_num_likelihood_evaluations (fst x) + 1
         \<and> 0 \<le> carry_num_likelihood_evaluations (fst x)"
  have "?P (carry, calls') \<and> \<not> new_proposal_cond env seed_point log_L_c (carry, calls')"
  proof (rule while_loop_rule [OF loop, where P = ?P])
    show "?P init" using new_proposal_init_count [of env key seed_point pf gs calls "fst init" "snd init"] init
      by simp
  next
    fix x :: "'a Carry \<times> nat" assume "?P x"
    then show "?P (new_proposal_body env seed_point ms log_L_c x)"
      using new_proposal_body_count [of "snd x" calls "fst x" env seed_point ms log_L_c
          "fst (new_proposal_body env seed_point ms log_L_c x)"
          "snd (new_proposal_body env seed_point ms log_L_c x)"]
      by simp
  qed
  then show ?thesis by (simp add: not_cond_exit)
qed

lemma propose_op_result:
  assumes "propose_op env self log_L_c sample key calls = Some (Inr (s, calls'))"
  shows "\<exists>carry. new_proposal_loop env key \<lparr>U0 = U_sample sample, log_L0 = log_L sample\<rparr>
            (midpoint_shrink self) (perfect self) (gradient_slice self) log_L_c calls
            = Some (Inr (carry, calls'))
          \<and> s = \<lparr>U_sample = carry_point_U carry, log_L_constraint = log_L_c,
                  log_L = carry_log_L carry,
                  num_likelihood_evaluations =
                    carry_num_likelihood_evaluations carry + num_likelihood_evaluations sample\<rparr>"
  using assms
  by (auto simp: propose_op_def new_proposal_def split: option.splits sum.splits prod.splits)

text \<open>The scan: one accumulated value per key, each the result of the step before.\<close>

lemma cumulative_op_static_result:
  assumes "cumulative_op_static op init xs calls = Some (Inr ((final, cum), calls'))"
  shows "length cum = length xs \<and> final = last (init # cum)
         \<and> (\<forall>i<length xs. \<exists>c0 c1. op ((init # cum) ! i) (xs ! i) c0 = Some (Inr (cum ! i, c1)))"
  using assms
proof (induction xs arbitrary: init calls final cum calls')
  case Nil
  then show ?case by simp
next
  case (Cons x xs)
  from Cons.prems obtain acc calls1 rest where
    step: "op init x calls = Some (Inr (acc, calls1))"
    and rec: "cumulative_op_static op acc xs calls1 = Some (Inr ((final, rest), calls'))"
    and cum: "cum = acc # rest"
    by (auto split: option.splits sum.splits prod.splits)
  from Cons.IH [OF rec] have ih: "length rest = length xs" "final = last (acc # rest)"
    "\<forall>i<length xs. \<exists>c0 c1. op ((acc # rest) ! i) (xs ! i) c0 = Some (Inr (rest ! i, c1))"
    by auto
  have "\<forall>i<length (x # xs). \<exists>c0 c1.
      op ((init # cum) ! i) ((x # xs) ! i) c0 = Some (Inr (cum ! i, c1))"
  proof (intro allI impI)
    fix i assume i: "i < length (x # xs)"
    show "\<exists>c0 c1. op ((init # cum) ! i) ((x # xs) ! i) c0 = Some (Inr (cum ! i, c1))"
    proof (cases i)
      case 0
      with step cum show ?thesis by auto
    next
      case (Suc j)
      with i ih(3) cum show ?thesis by simp
    qed
  qed
  with ih cum show ?case by simp
qed

text \<open>The scan adds up the counts of its steps.\<close>

lemma cumulative_op_static_count:
  assumes "cumulative_op_static (propose_op env self log_L_c) init xs calls
             = Some (Inr ((final, cum), calls'))"
  shows "int calls' - int calls =
           num_likelihood_evaluations final - num_likelihood_evaluations init + int (length xs)
         \<and> num_likelihood_evaluations init \<le> num_likelihood_evaluations final"
  using assms
proof (induction xs arbitrary: init calls final cum calls')
  case Nil
  then show ?case by simp
next
  case (Cons x xs)
  from Cons.prems obtain acc calls1 rest where
    step: "propose_op env self log_L_c init x calls = Some (Inr (acc, calls1))"
    and rec: "cumulative_op_static (propose_op env self log_L_c) acc xs calls1
                = Some (Inr ((final, rest), calls'))"
    by (auto split: option.splits sum.splits prod.splits)
  from propose_op_result [OF step] obtain carry where
    loop: "new_proposal_loop env x \<lparr>U0 = U_sample init, log_L0 = log_L init\<rparr>
            (midpoint_shrink self) (perfect self) (gradient_slice self) log_L_c calls
            = Some (Inr (carry, calls1))"
    and acc: "num_likelihood_evaluations acc =
        carry_num_likelihood_evaluations carry + num_likelihood_evaluations init"
    by auto
  from new_proposal_loop_result [OF loop]
  have c: "int calls1 = int calls + carry_num_likelihood_evaluations carry + 1"
    "0 \<le> carry_num_likelihood_evaluations carry" by simp_all
  from Cons.IH [OF rec] c acc show ?case by simp
qed

lemma init_valid:
  assumes "UniDimSliceSampler_init n p ms pf gs = Inr self"
  shows "num_slices self = n \<and> num_phantom_save self = p \<and> 1 \<le> n \<and> 0 \<le> p \<and> p < n
         \<and> perfect self"
  using assms by (auto simp: UniDimSliceSampler_init_def split: if_splits)

lemma py_slice_phantoms:
  assumes "0 \<le> p" "p < int (length xs)"
  shows "py_slice xs (- (p + 1)) (- 1) = take (nat p) (drop (length xs - 1 - nat p) xs)"
proof -
  let ?n = "int (length xs)"
  have a: "(if - (p + 1) < 0 then max (- (p + 1) + ?n) 0 else min (- (p + 1)) ?n) = ?n - p - 1"
    using assms by auto
  have b: "(if (- 1 :: int) < 0 then max (- 1 + ?n) 0 else min (- 1) ?n) = ?n - 1"
    using assms by auto
  have c: "nat (?n - p - 1) = length xs - 1 - nat p" using assms by linarith
  have d: "?n - 1 - (?n - p - 1) = p" by simp
  show ?thesis unfolding py_slice_def Let_def a b c d ..
qed

lemma length_phantom_slice:
  assumes "0 \<le> p" "p < int (length xs)"
  shows "length (py_slice xs (- (p + 1)) (- 1)) = nat p"
  unfolding py_slice_phantoms [OF assms] using assms by simp

lemma astype_int_floor: "0 \<le> x \<Longrightarrow> astype_int x = \<lfloor>x\<rfloor>"
  by (simp add: astype_int_def)

lemma get_sample_from_seed_result:
  assumes "get_sample_from_seed env self key seed_point log_L_c st calls
             = Some (Inr ((final, phantoms), calls'))"
  shows "\<exists>raw cum. cumulative_op_static (propose_op env self log_L_c)
              \<lparr>U_sample = U0 seed_point, log_L_constraint = log_L_c, log_L = log_L0 seed_point,
               num_likelihood_evaluations = 0\<rparr>
              (random_split env key (nat (num_slices self))) calls = Some (Inr ((raw, cum), calls'))
          \<and> final = raw\<lparr>num_likelihood_evaluations :=
                num_likelihood_evaluations raw
                - astype_int (real_of_int (num_likelihood_evaluations raw)
                              / real_of_int (num_phantom_save self + 1)) * num_phantom_save self\<rparr>
          \<and> phantoms = map (\<lambda>s. s\<lparr>num_likelihood_evaluations :=
                astype_int (real_of_int (num_likelihood_evaluations raw)
                            / real_of_int (num_phantom_save self + 1))\<rparr>)
              (py_slice cum (- (num_phantom_save self + 1)) (- 1))"
  using assms
  by (auto simp: get_sample_from_seed_def Let_def split: option.splits sum.splits prod.splits)

text \<open>What a call that returns gives: the phantoms and the counts, read off the chain.\<close>

lemma phantoms_of_chain:
  assumes "UniDimSliceSampler_init n p ms pf gs = Inr self"
    and "get_sample_from_seed env self key seed_point log_L_c st calls
           = Some (Inr ((final, phantoms), calls'))"
  shows "\<exists>raw cum. cumulative_op_static (propose_op env self log_L_c)
              \<lparr>U_sample = U0 seed_point, log_L_constraint = log_L_c, log_L = log_L0 seed_point,
               num_likelihood_evaluations = 0\<rparr>
              (random_split env key (nat n)) calls = Some (Inr ((raw, cum), calls'))
          \<and> length cum = nat n
          \<and> length phantoms = nat p
          \<and> (\<forall>i<nat p. \<exists>q. phantoms ! i = (cum ! (nat n - 1 - nat p + i))\<lparr>num_likelihood_evaluations := q\<rparr>)
          \<and> (\<exists>q. final = (cum ! (nat n - 1))\<lparr>num_likelihood_evaluations := q\<rparr>)"
proof -
  from init_valid [OF assms(1)] have v: "num_slices self = n" "num_phantom_save self = p"
    "1 \<le> n" "0 \<le> p" "p < n" by simp_all
  from get_sample_from_seed_result [OF assms(2)] obtain raw cum q where
    scan: "cumulative_op_static (propose_op env self log_L_c)
              \<lparr>U_sample = U0 seed_point, log_L_constraint = log_L_c, log_L = log_L0 seed_point,
               num_likelihood_evaluations = 0\<rparr>
              (random_split env key (nat n)) calls = Some (Inr ((raw, cum), calls'))"
    and fin: "final = raw\<lparr>num_likelihood_evaluations := num_likelihood_evaluations raw - q * p\<rparr>"
    and ph: "phantoms = map (\<lambda>s. s\<lparr>num_likelihood_evaluations := q\<rparr>) (py_slice cum (- (p + 1)) (- 1))"
    unfolding v by blast
  from cumulative_op_static_result [OF scan] have len: "length cum = nat n"
    and last: "raw = last (\<lparr>U_sample = U0 seed_point, log_L_constraint = log_L_c,
        log_L = log_L0 seed_point, num_likelihood_evaluations = 0\<rparr> # cum)"
    by (simp_all add: random_split_def)
  from len v have ne: "cum \<noteq> []" by auto
  with last have raw: "raw = cum ! (nat n - 1)" by (simp add: last_conv_nth len)
  have sl: "py_slice cum (- (p + 1)) (- 1) = take (nat p) (drop (nat n - 1 - nat p) cum)"
    using py_slice_phantoms [of p cum] v len by simp
  have lp: "length phantoms = nat p"
    unfolding ph using length_phantom_slice [of p cum] v len by simp
  have "\<forall>i<nat p. phantoms ! i = (cum ! (nat n - 1 - nat p + i))\<lparr>num_likelihood_evaluations := q\<rparr>"
  proof (intro allI impI)
    fix i assume i: "i < nat p"
    with lp have "i < length (take (nat p) (drop (nat n - 1 - nat p) cum))"
      unfolding ph sl by simp
    then show "phantoms ! i = (cum ! (nat n - 1 - nat p + i))\<lparr>num_likelihood_evaluations := q\<rparr>"
      unfolding ph sl using i by simp
  qed
  with scan len lp raw fin show ?thesis by blast
qed

lemma counts_of_chain:
  assumes "UniDimSliceSampler_init n p ms pf gs = Inr self"
    and "get_sample_from_seed env self key seed_point log_L_c st calls
           = Some (Inr ((final, phantoms), calls'))"
  shows "\<exists>raw cum. cumulative_op_static (propose_op env self log_L_c)
              \<lparr>U_sample = U0 seed_point, log_L_constraint = log_L_c, log_L = log_L0 seed_point,
               num_likelihood_evaluations = 0\<rparr>
              (random_split env key (nat n)) calls = Some (Inr ((raw, cum), calls'))
          \<and> num_likelihood_evaluations final =
              num_likelihood_evaluations raw
              - \<lfloor>real_of_int (num_likelihood_evaluations raw) / real_of_int (p + 1)\<rfloor> * p
          \<and> (\<forall>ph\<in>set phantoms. num_likelihood_evaluations ph =
              \<lfloor>real_of_int (num_likelihood_evaluations raw) / real_of_int (p + 1)\<rfloor>)"
proof -
  from init_valid [OF assms(1)] have v: "num_slices self = n" "num_phantom_save self = p"
    "1 \<le> n" "0 \<le> p" "p < n" by simp_all
  from get_sample_from_seed_result [OF assms(2)] obtain raw cum where
    scan: "cumulative_op_static (propose_op env self log_L_c)
              \<lparr>U_sample = U0 seed_point, log_L_constraint = log_L_c, log_L = log_L0 seed_point,
               num_likelihood_evaluations = 0\<rparr>
              (random_split env key (nat n)) calls = Some (Inr ((raw, cum), calls'))"
    and fin: "final = raw\<lparr>num_likelihood_evaluations := num_likelihood_evaluations raw
        - astype_int (real_of_int (num_likelihood_evaluations raw) / real_of_int (p + 1)) * p\<rparr>"
    and ph: "phantoms = map (\<lambda>s. s\<lparr>num_likelihood_evaluations :=
        astype_int (real_of_int (num_likelihood_evaluations raw) / real_of_int (p + 1))\<rparr>)
        (py_slice cum (- (p + 1)) (- 1))"
    unfolding v by blast
  from cumulative_op_static_count [OF scan] have "0 \<le> num_likelihood_evaluations raw" by simp
  with v have "0 \<le> real_of_int (num_likelihood_evaluations raw) / real_of_int (p + 1)" by simp
  then have q: "astype_int (real_of_int (num_likelihood_evaluations raw) / real_of_int (p + 1))
      = \<lfloor>real_of_int (num_likelihood_evaluations raw) / real_of_int (p + 1)\<rfloor>"
    by (rule astype_int_floor)
  from fin ph show ?thesis unfolding q using scan by auto
qed

text \<open>Under the conditions above every slice step returns, and so does the chain.\<close>

lemma new_proposal_loop_total:
  assumes d: "draws_progress env c" and ok: "directions_ok env" and eps: "0 < finfo_eps env"
    and cube: "in_unit_cube (U0 seed_point)"
  shows "\<exists>carry calls'. new_proposal_loop env key seed_point ms True gs log_L_c calls
                          = Some (Inr (carry, calls'))
           \<and> in_unit_cube (carry_point_U carry)"
proof -
  from new_proposal_init_progress [OF d ok cube, of key gs calls] obtain init where
    init: "new_proposal_init env key seed_point True gs calls = Inr init"
    "slice_inv c (U0 seed_point) init" by blast
  define cnd where "cnd = new_proposal_cond env seed_point log_L_c"
  define body where "body = new_proposal_body env seed_point ms log_L_c"
  from exists_collapse [OF d eps init(2), of log_L_c ms] obtain k where
    "\<not> cnd ((body ^^ k) init)" unfolding cnd_def body_def by blast
  from while_loop_first [where c = cnd and f = body and k = k and s = init, OF this]
  obtain j where j: "while_loop cnd body init = Some ((body ^^ j) init)" by blast
  obtain carry calls' where r: "(body ^^ j) init = (carry, calls')"
    by (cases "(body ^^ j) init")
  from slice_inv_funpow [OF d init(2), where ms = ms and log_L_c = log_L_c and k = j]
  have "slice_inv c (U0 seed_point) (carry, calls')" unfolding body_def [symmetric] r by simp
  from slice_inv_width [OF this, where env = env and seed_point = seed_point and log_L_c = log_L_c]
  have "in_unit_cube (carry_point_U carry)" by simp
  moreover from j r have "while_loop cnd body init = Some (carry, calls')" by simp
  then have "new_proposal_loop env key seed_point ms True gs log_L_c calls
       = Some (Inr (carry, calls'))"
    unfolding new_proposal_loop_def init(1) cnd_def [symmetric] body_def [symmetric] by simp
  ultimately show ?thesis by blast
qed

lemma propose_op_total:
  assumes d: "draws_progress env c" and ok: "directions_ok env" and eps: "0 < finfo_eps env"
    and pf: "perfect self"
    and cube: "in_unit_cube (U_sample sample)"
  shows "\<exists>s calls'. propose_op env self log_L_c sample key calls = Some (Inr (s, calls'))
           \<and> in_unit_cube (U_sample s)"
proof -
  have "in_unit_cube (U0 \<lparr>U0 = U_sample sample, log_L0 = log_L sample\<rparr>)" using cube by simp
  from new_proposal_loop_total [OF d ok eps this, of key "midpoint_shrink self"
      "gradient_slice self" log_L_c calls]
  obtain carry calls' where "new_proposal_loop env key \<lparr>U0 = U_sample sample, log_L0 = log_L sample\<rparr>
      (midpoint_shrink self) True (gradient_slice self) log_L_c calls = Some (Inr (carry, calls'))"
    "in_unit_cube (carry_point_U carry)" by blast
  then show ?thesis using pf by (simp add: propose_op_def new_proposal_def)
qed

lemma cumulative_op_static_total:
  assumes "\<And>v x c. P v \<Longrightarrow> \<exists>v' c'. op v x c = Some (Inr (v', c')) \<and> P v'" and "P init"
  shows "\<exists>final cum calls'. cumulative_op_static op init xs calls = Some (Inr ((final, cum), calls'))"
  using assms(2)
proof (induction xs arbitrary: init calls)
  case Nil
  then show ?case by simp
next
  case (Cons x xs)
  from assms(1) [OF Cons.prems, of x calls] obtain v' c' where
    s: "op init x calls = Some (Inr (v', c'))" "P v'" by blast
  from Cons.IH [OF s(2), of c'] obtain final cum calls' where
    "cumulative_op_static op v' xs c' = Some (Inr ((final, cum), calls'))" by blast
  with s(1) show ?case by simp
qed

lemma get_sample_from_seed_total:
  assumes init: "UniDimSliceSampler_init n p ms pf gs = Inr self"
    and d: "draws_progress env c" and ok: "directions_ok env" and eps: "0 < finfo_eps env"
    and cube: "in_unit_cube (U0 seed_point)"
  shows "\<exists>final phantoms calls'. get_sample_from_seed env self key seed_point log_L_c st calls
           = Some (Inr ((final, phantoms), calls'))"
proof -
  from init_valid [OF init] have pf: "perfect self" by simp
  let ?init = "\<lparr>U_sample = U0 seed_point, log_L_constraint = log_L_c, log_L = log_L0 seed_point,
                num_likelihood_evaluations = 0\<rparr>"
  have "\<exists>final cum calls'. cumulative_op_static (propose_op env self log_L_c) ?init
            (random_split env key (nat (num_slices self))) calls = Some (Inr ((final, cum), calls'))"
  proof (rule cumulative_op_static_total [where P = "\<lambda>s. in_unit_cube (U_sample s)"])
    fix v :: Sample and x c'
    assume "in_unit_cube (U_sample v)"
    from propose_op_total [OF d ok eps pf this]
    show "\<exists>v' c''. propose_op env self log_L_c v x c' = Some (Inr (v', c''))
             \<and> in_unit_cube (U_sample v')" by blast
  next
    show "in_unit_cube (U_sample ?init)" using cube by simp
  qed
  then show ?thesis by (auto simp: get_sample_from_seed_def Let_def)
qed

text \<open>
  The counts that one call reports add up to the accumulated counter, and the call
  performs one more model evaluation per slice step than it reports: the evaluation of
  the first proposal of each step is not counted.
\<close>

lemma evaluations_performed:
  assumes "UniDimSliceSampler_init n p ms pf gs = Inr self"
    and "get_sample_from_seed env self key seed_point log_L_c st calls
           = Some (Inr ((final, phantoms), calls'))"
  shows "int calls' - int calls =
           num_likelihood_evaluations final + sum_list (map num_likelihood_evaluations phantoms) + n"
proof -
  from init_valid [OF assms(1)] have v: "num_slices self = n" "num_phantom_save self = p"
    "1 \<le> n" "0 \<le> p" "p < n" by simp_all
  from get_sample_from_seed_result [OF assms(2)] obtain raw cum q where
    scan: "cumulative_op_static (propose_op env self log_L_c)
              \<lparr>U_sample = U0 seed_point, log_L_constraint = log_L_c, log_L = log_L0 seed_point,
               num_likelihood_evaluations = 0\<rparr>
              (random_split env key (nat n)) calls = Some (Inr ((raw, cum), calls'))"
    and fin: "final = raw\<lparr>num_likelihood_evaluations := num_likelihood_evaluations raw - q * p\<rparr>"
    and ph: "phantoms = map (\<lambda>s. s\<lparr>num_likelihood_evaluations := q\<rparr>) (py_slice cum (- (p + 1)) (- 1))"
    unfolding v by blast
  from cumulative_op_static_result [OF scan] have len: "length cum = nat n"
    by (simp add: random_split_def)
  have sl: "py_slice cum (- (p + 1)) (- 1) = take (nat p) (drop (nat n - 1 - nat p) cum)"
    using py_slice_phantoms [of p cum] v len by simp
  have lp: "length (py_slice cum (- (p + 1)) (- 1)) = nat p"
    using length_phantom_slice [of p cum] v len by simp
  have "map num_likelihood_evaluations phantoms = replicate (nat p) q"
    unfolding ph using lp by (simp add: map_replicate_const comp_def)
  then have "sum_list (map num_likelihood_evaluations phantoms) = q * p"
    using v by (simp add: sum_list_replicate)
  moreover from cumulative_op_static_count [OF scan]
  have "int calls' - int calls = num_likelihood_evaluations raw + n"
    using v by (simp add: random_split_def)
  ultimately show ?thesis by (simp add: fin)
qed

section \<open>Concrete runs\<close>

lemmas eval_defs = new_proposal_cond_def new_proposal_body_def split3_def shrink_interval_def
  pick_point_in_interval_def forward_call_def Let_def where_sel_def fl_greater_def fl_le_def
  fl_eq_def fl_sub_def midpoint_uniform_def

lemmas run_defs = get_sample_from_seed_def random_split_def propose_op_def new_proposal_def
  new_proposal_loop_def new_proposal_init_def sample_direction_def slice_bounds_def
  fl_ge_def minimum_def maximum_def fl_inf_def py_slice_def astype_int_def

lemma run1: "get_sample_from_seed env1 sampler1 0 seed1 NInf (SamplerState ()) 0 =
  Some (Inr ((\<lparr>U_sample = [Fin (1 / 2)], log_L_constraint = NInf,
            log_L = Fin (1 / 2), num_likelihood_evaluations = 0\<rparr>, []), 1))"
  apply (simp add: run_defs eval_defs env1_def env0_def seed1_def sampler1_def coord_forward_def)
  apply (subst while_loop.simps, simp add: run_defs eval_defs env1_def env0_def seed1_def coord_forward_def)+
  done

lemma upt5: "[0..<5] = [0, 1, 2, 3, 4]"
  by (simp add: upt_rec)

lemma run5: "get_sample_from_seed env1 sampler5 0 seed1 (Fin (7/10)) (SamplerState ()) 0 =
  Some (Inr ((\<lparr>U_sample = [Fin (3413 / 4096)], log_L_constraint = Fin (7 / 10),
            log_L = Fin (3413 / 4096), num_likelihood_evaluations = 3\<rparr>,
         [\<lparr>U_sample = [Fin (213 / 256)], log_L_constraint = Fin (7 / 10),
             log_L = Fin (213 / 256), num_likelihood_evaluations = 1\<rparr>,
          \<lparr>U_sample = [Fin (853 / 1024)], log_L_constraint = Fin (7 / 10),
             log_L = Fin (853 / 1024), num_likelihood_evaluations = 1\<rparr>]), 10))"
  apply (simp add: run_defs eval_defs env1_def env0_def seed1_def sampler5_def coord_forward_def
      upt5)
  apply (subst while_loop.simps, simp add: run_defs eval_defs env1_def env0_def seed1_def coord_forward_def)+
  done

lemma run22: "get_sample_from_seed env0 sampler1 0 seed0 (Fin (1/2)) (SamplerState ()) 0 =
  Some (Inr ((\<lparr>U_sample = [Fin (2796203 / 8388608)],
            log_L_constraint = Fin (1 / 2), log_L = Fin 0,
            num_likelihood_evaluations = 22\<rparr>, []), 23))"
  apply (simp add: run_defs eval_defs env0_def seed0_def sampler1_def spike_forward_def)
  apply (subst while_loop.simps, simp add: run_defs eval_defs env0_def seed0_def spike_forward_def)+
  done

lemma init1: "UniDimSliceSampler_init 1 0 False True False = Inr sampler1"
  by (simp add: UniDimSliceSampler_init_def sampler1_def)

lemma init5: "UniDimSliceSampler_init 5 2 True True False = Inr sampler5"
  by (simp add: UniDimSliceSampler_init_def sampler5_def)

lemma draws_progress_env2: "draws_progress env2 (3 / 4)"
  unfolding draws_progress_def
proof (intro conjI allI impI)
  fix key :: nat and a b :: real
  assume ab: "a \<le> 0 \<and> 0 \<le> b"
  let ?t = "if - a \<le> b then b / 2 else a / 2"
  have "random_uniform env2 key (Fin a) (Fin b) = Fin ?t"
    by (simp add: env2_def farther_half_uniform_def)
  moreover have "a \<le> ?t" "?t \<le> b" using ab by auto
  moreover have "a < b \<longrightarrow> ?t \<noteq> 0 \<and> (?t < 0 \<longrightarrow> b - ?t \<le> 3 / 4 * (b - a))
                                \<and> (0 < ?t \<longrightarrow> ?t - a \<le> 3 / 4 * (b - a))"
    using ab by (auto simp: field_simps)
  ultimately show "\<exists>t. random_uniform env2 key (Fin a) (Fin b) = Fin t \<and> a \<le> t \<and> t \<le> b
                 \<and> (a < b \<longrightarrow> t \<noteq> 0 \<and> (t < 0 \<longrightarrow> b - t \<le> 3 / 4 * (b - a))
                                \<and> (0 < t \<longrightarrow> t - a \<le> 3 / 4 * (b - a)))"
    by blast
qed simp_all

lemma euclidean_norm_zero:
  assumes "\<forall>x\<in>set v. isfinite x"
  shows "\<exists>r. euclidean_norm v = Fin r \<and> (r = 0 \<longleftrightarrow> (\<forall>x\<in>set v. x = Fin 0))"
proof -
  let ?sq = "map (\<lambda>x. case x of Fin r \<Rightarrow> r * r | _ \<Rightarrow> 0) v"
  have nn: "\<And>y. y \<in> set ?sq \<Longrightarrow> 0 \<le> y" by (auto split: fval.splits)
  have "sum_list ?sq = 0 \<longleftrightarrow> (\<forall>y\<in>set ?sq. y = 0)"
    using nn by (rule sum_list_nonneg_eq_0_iff)
  also have "\<dots> \<longleftrightarrow> (\<forall>x\<in>set v. x = Fin 0)"
  proof
    assume h: "\<forall>y\<in>set ?sq. y = 0"
    show "\<forall>x\<in>set v. x = Fin 0"
    proof
      fix x assume x: "x \<in> set v"
      with assms obtain r where r: "x = Fin r" by (cases x) auto
      from x h have "(case x of Fin r \<Rightarrow> r * r | _ \<Rightarrow> 0) = 0" by simp
      with r show "x = Fin 0" by simp
    qed
  next
    assume "\<forall>x\<in>set v. x = Fin 0"
    then show "\<forall>y\<in>set ?sq. y = 0" by auto
  qed
  finally have "sqrt (sum_list ?sq) = 0 \<longleftrightarrow> (\<forall>x\<in>set v. x = Fin 0)" by simp
  with assms show ?thesis by (simp add: euclidean_norm_def)
qed

lemma directions_ok_env2: "directions_ok env2"
  unfolding directions_ok_def
proof (intro conjI allI impI)
  fix key n :: nat assume "1 < n"
  then show "proper_direction (random_normal env2 key n)"
    by (auto simp: env2_def env1_def env0_def proper_direction_def)
next
  fix v assume "\<forall>x\<in>set v. isfinite x"
  from euclidean_norm_zero [OF this]
  show "\<exists>r. linalg_norm env2 v = Fin r \<and> (r = 0 \<longleftrightarrow> (\<forall>x\<in>set v. x = Fin 0))"
    by (simp add: env2_def)
qed (simp_all add: env2_def env1_def env0_def)

lemma eps_env2: "0 < finfo_eps env2"
  by (simp add: env2_def env1_def env0_def)

lemma cube_seed1: "in_unit_cube (U0 seed1)"
  unfolding in_unit_cube_def seed1_def by (auto intro: exI [of _ "3 / 4"])

lemma upt2: "[0..<2] = [0, 1]"
  by (simp add: upt_rec)

lemma run46: "get_sample_from_seed env0 sampler2 0 seed0 (Fin (1 / 2)) (SamplerState ()) 0 =
  Some (Inr ((\<lparr>U_sample = [Fin (2796203 / 8388608)], log_L_constraint = Fin (1 / 2),
               log_L = Fin 0, num_likelihood_evaluations = 22\<rparr>,
             [\<lparr>U_sample = [Fin (2796203 / 8388608)], log_L_constraint = Fin (1 / 2),
                log_L = Fin 0, num_likelihood_evaluations = 22\<rparr>]), 46))"
  apply (simp add: run_defs eval_defs env0_def seed0_def sampler2_def spike_forward_def upt2)
  apply (subst while_loop.simps, simp add: run_defs eval_defs env0_def seed0_def spike_forward_def)+
  done

section \<open>The rejection loop\<close>

lemma get_sample_body_Inr:
  assumes "py_truediv 1 (efficiency_threshold self) = Inr thr"
  shows "get_sample_body env sample_U self pd x = Inr (get_sample_step env sample_U self pd x)"
  using assms
  by (cases x) (simp add: get_sample_step_def get_sample_body_def split2_def forward_call_def Let_def)

lemma get_sample_step_eq:
  assumes "py_truediv 1 (efficiency_threshold self) = Inr thr"
  shows "get_sample_step env sample_U self pd (cs, n) =
    (let constr = (if real_of_int (cs_num_likelihood_evals cs + 1) > thr
                   then fl_sub (cs_log_L_constraint cs) (Fin (1 / 10)) else cs_log_L_constraint cs);
         logL = model_forward env (cs_U cs);
         done = fl_greater logL constr
     in (\<lparr>cs_done = done, cs_key = subkey env (cs_key cs) 2 0,
          cs_U = (if done then cs_U cs else sample_U (subkey env (cs_key cs) 2 1) pd),
          cs_log_L = logL, cs_log_L_constraint = constr,
          cs_num_likelihood_evals = cs_num_likelihood_evals cs + 1\<rparr>, Suc n))"
  using assms
  by (simp add: get_sample_step_def get_sample_body_def split2_def forward_call_def Let_def
      where_sel_def)

lemma attempt_0:
  "attempt env sample_U self key c0 pd calls 0 = (init_carry_state env sample_U key c0 pd, calls)"
  by (simp add: attempt_def)

lemma attempt_Suc:
  "attempt env sample_U self key c0 pd calls (Suc j) =
     get_sample_step env sample_U self pd (attempt env sample_U self key c0 pd calls j)"
  by (simp add: attempt_def)

lemma attempt_inv:
  assumes "py_truediv 1 (efficiency_threshold self) = Inr thr"
  shows "cs_num_likelihood_evals (fst (attempt env sample_U self key c0 pd calls j)) = int j
     \<and> snd (attempt env sample_U self key c0 pd calls j) = calls + j
     \<and> cs_log_L_constraint (fst (attempt env sample_U self key c0 pd calls j))
         = relaxed_constraint thr c0 j
     \<and> (\<exists>k. cs_U (fst (attempt env sample_U self key c0 pd calls j)) = sample_U k pd)"
proof (induction j)
  case 0
  show ?case by (auto simp: attempt_0 init_carry_state_def split2_def)
next
  case (Suc j)
  obtain cs n where a: "attempt env sample_U self key c0 pd calls j = (cs, n)"
    by (cases "attempt env sample_U self key c0 pd calls j")
  have r: "real_of_int (int j + 1) = real (Suc j)" by simp
  from Suc a show ?case
    unfolding attempt_Suc a get_sample_step_eq [OF assms]
    by (auto simp: Let_def r simp del: of_int_add of_nat_Suc)
qed

lemma attempt_done:
  assumes "py_truediv 1 (efficiency_threshold self) = Inr thr"
  shows "cs_log_L (fst (attempt env sample_U self key c0 pd calls (Suc j)))
           = model_forward env (cs_U (fst (attempt env sample_U self key c0 pd calls j)))
     \<and> cs_done (fst (attempt env sample_U self key c0 pd calls (Suc j)))
         = fl_greater (cs_log_L (fst (attempt env sample_U self key c0 pd calls (Suc j))))
             (relaxed_constraint thr c0 (Suc j))
     \<and> (cs_done (fst (attempt env sample_U self key c0 pd calls (Suc j))) \<longrightarrow>
          cs_U (fst (attempt env sample_U self key c0 pd calls (Suc j)))
            = cs_U (fst (attempt env sample_U self key c0 pd calls j)))"
proof -
  obtain cs n where a: "attempt env sample_U self key c0 pd calls j = (cs, n)"
    by (cases "attempt env sample_U self key c0 pd calls j")
  from attempt_inv [OF assms, of env sample_U key c0 pd calls j] a
  have c: "cs_log_L_constraint cs = relaxed_constraint thr c0 j"
    and e: "cs_num_likelihood_evals cs = int j" by simp_all
  have r: "real_of_int (int j + 1) = real (Suc j)" by simp
  show ?thesis
    unfolding attempt_Suc a get_sample_step_eq [OF assms]
    by (simp add: Let_def c e r del: of_int_add of_nat_Suc)
qed


lemma relaxed_constraint_closed_form:
  "relaxed_constraint thr (Fin c) k = Fin (c - real (card {j \<in> {1..k}. real j > thr}) / 10)"
proof (induction k)
  case 0
  then show ?case by simp
next
  case (Suc k)
  have split: "{j \<in> {1..Suc k}. real j > thr} =
      (if real (Suc k) > thr then insert (Suc k) {j \<in> {1..k}. real j > thr}
       else {j \<in> {1..k}. real j > thr})"
    by (auto simp: le_Suc_eq)
  have fin: "finite {j \<in> {1..k}. real j > thr}" by simp
  have notin: "Suc k \<notin> {j \<in> {1..k}. real j > thr}" by simp
  show ?case
    unfolding split using Suc.IH fin notin
    by (simp add: fl_sub_def card_insert_disjoint del: of_nat_Suc) (simp add: field_simps)
qed

lemma relaxed_constraint_NInf: "relaxed_constraint thr NInf k = NInf"
  by (induction k) (simp_all add: fl_sub_def)

lemma relaxed_constraint_below:
  assumes "thr \<le> real N"
  shows "\<exists>x. relaxed_constraint thr (Fin c) (N + j) = Fin x \<and> x \<le> c - real j / 10"
proof -
  let ?S = "{i \<in> {1..N + j}. real i > thr}"
  have "{N + 1..N + j} \<subseteq> ?S" using assms by auto
  then have "card {N + 1..N + j} \<le> card ?S" by (intro card_mono) simp_all
  then have "real j \<le> real (card ?S)" by simp
  then have "c - real (card ?S) / 10 \<le> c - real j / 10" by simp
  then show ?thesis unfolding relaxed_constraint_closed_form by simp
qed

lemma attempt_likelihood:
  assumes "py_truediv 1 (efficiency_threshold self) = Inr thr"
    and "bounded_below env sample_U pd m"
  shows "\<exists>v. cs_log_L (fst (attempt env sample_U self key c0 pd calls (Suc j))) = Fin v \<and> m \<le> v"
proof -
  from attempt_inv [OF assms(1), of env sample_U key c0 pd calls j] obtain k where
    "cs_U (fst (attempt env sample_U self key c0 pd calls j)) = sample_U k pd" by blast
  with attempt_done [OF assms(1), of env sample_U key c0 pd calls j] assms(2)
  show ?thesis by (simp add: bounded_below_def)
qed

lemma exists_done:
  assumes "py_truediv 1 (efficiency_threshold self) = Inr thr"
    and "c0 = NInf \<or> isfinite c0"
    and "bounded_below env sample_U pd m"
  shows "\<exists>K. cs_done (fst (attempt env sample_U self key c0 pd calls K))"
proof (cases "c0 = NInf")
  case True
  from attempt_likelihood [OF assms(1,3), of key c0 calls 0] obtain v where
    "cs_log_L (fst (attempt env sample_U self key c0 pd calls (Suc 0))) = Fin v" by blast
  with attempt_done [OF assms(1), of env sample_U key c0 pd calls 0] True
  have "cs_done (fst (attempt env sample_U self key c0 pd calls (Suc 0)))"
    by (simp add: relaxed_constraint_NInf fl_greater_def del: relaxed_constraint.simps)
  then show ?thesis by blast
next
  case False
  with assms(2) obtain c where c: "c0 = Fin c" by (cases c0) auto
  obtain N where N: "thr \<le> real N" using real_arch_simple by blast
  obtain j where j: "10 * (c - m) < real j" using reals_Archimedean2 by blast
  from relaxed_constraint_below [OF N, of c "Suc j"] obtain x where
    x: "relaxed_constraint thr (Fin c) (Suc (N + j)) = Fin x" "x \<le> c - real (Suc j) / 10"
    by auto
  from x(2) j have xm: "x < m" by (simp add: field_simps)
  from attempt_likelihood [OF assms(1,3), of key c0 calls "N + j"] obtain v where
    v: "cs_log_L (fst (attempt env sample_U self key c0 pd calls (Suc (N + j)))) = Fin v" "m \<le> v"
    by blast
  from attempt_done [OF assms(1), of env sample_U key c0 pd calls "N + j"] v x(1) xm
  have "cs_done (fst (attempt env sample_U self key c0 pd calls (Suc (N + j))))"
    by (simp add: c fl_greater_def del: relaxed_constraint.simps)
  then show ?thesis by blast
qed

lemma get_sample_total:
  assumes "py_truediv 1 (efficiency_threshold self) = Inr thr"
    and "c0 = NInf \<or> isfinite c0"
    and "bounded_below env sample_U pd m"
  shows "\<exists>k. 0 < k
     \<and> (\<forall>j<k. \<not> cs_done (fst (attempt env sample_U self key c0 pd calls j)))
     \<and> cs_done (fst (attempt env sample_U self key c0 pd calls k))
     \<and> get_sample env sample_U self key c0 live_points pd calls =
         Some (Inr (\<lparr>rs_point_U = cs_U (fst (attempt env sample_U self key c0 pd calls k)),
                     rs_log_L_constraint = relaxed_constraint thr c0 k,
                     rs_log_L = cs_log_L (fst (attempt env sample_U self key c0 pd calls k)),
                     rs_num_likelihood_evaluations = int k,
                     rs_num_slices = 0, rs_iid = True\<rparr>, calls + k))
     \<and> cs_log_L (fst (attempt env sample_U self key c0 pd calls k))
         = model_forward env (cs_U (fst (attempt env sample_U self key c0 pd calls k)))
     \<and> fl_greater (cs_log_L (fst (attempt env sample_U self key c0 pd calls k)))
         (relaxed_constraint thr c0 k)"
proof -
  define c where "c = (\<lambda>(s :: 'a CarryState, calls :: nat). \<not> cs_done s)"
  define f where "f = get_sample_step env sample_U self pd"
  define init where "init = (init_carry_state env sample_U key c0 pd, calls)"
  define A where "A = attempt env sample_U self key c0 pd calls"
  have A: "\<And>j. (f ^^ j) init = A j" by (simp add: attempt_def A_def f_def init_def)
  have c: "\<And>x. c x = (\<not> cs_done (fst x))" by (simp add: c_def case_prod_beta)
  from exists_done [OF assms, of key calls] obtain K where "cs_done (fst (A K))"
    unfolding A_def by blast
  then have K: "\<not> c ((f ^^ K) init)" unfolding A c by simp
  from while_loop_first [where c = c and f = f and k = K and s = init] K obtain k where k: "k \<le> K"
    "while_loop c f init = Some ((f ^^ k) init)" "\<not> c ((f ^^ k) init)"
    "\<forall>i<k. c ((f ^^ i) init)" by blast
  from k(3) have dn: "cs_done (fst (A k))" unfolding A c by simp
  from k(4) have before: "\<forall>j<k. \<not> cs_done (fst (A j))" unfolding A c by simp
  have "\<not> cs_done (fst (A 0))"
    by (simp add: A_def attempt_0 init_carry_state_def split2_def)
  with dn have pos: "0 < k" by (cases k) auto
  then obtain k' where k': "k = Suc k'" by (cases k) auto
  have b: "\<And>x. get_sample_body env sample_U self pd x = Inr (f x)"
    unfolding f_def by (rule get_sample_body_Inr [OF assms(1)])
  have "while_loop_raising c (get_sample_body env sample_U self pd) init
          = map_option Inr (while_loop c f init)"
    using while_loop_raising_total [where b = "get_sample_body env sample_U self pd" and f = f
        and c = c and k = K and s = init] b K by blast
  with k(2) have loop: "while_loop_raising c (get_sample_body env sample_U self pd) init
          = Some (Inr (A k))" unfolding A by simp
  from attempt_inv [OF assms(1), of env sample_U key c0 pd calls k]
  have inv: "cs_num_likelihood_evals (fst (A k)) = int k" "snd (A k) = calls + k"
    "cs_log_L_constraint (fst (A k)) = relaxed_constraint thr c0 k"
    unfolding A_def by simp_all
  have gs: "get_sample env sample_U self key c0 live_points pd calls =
         Some (Inr (\<lparr>rs_point_U = cs_U (fst (A k)),
                     rs_log_L_constraint = relaxed_constraint thr c0 k,
                     rs_log_L = cs_log_L (fst (A k)),
                     rs_num_likelihood_evaluations = int k,
                     rs_num_slices = 0, rs_iid = True\<rparr>, calls + k))"
    unfolding get_sample_def c_def [symmetric] init_def [symmetric] loop
    using inv by (simp add: case_prod_beta)
  from attempt_done [OF assms(1), of env sample_U key c0 pd calls k'] dn
  have "cs_log_L (fst (A k)) = model_forward env (cs_U (fst (A k)))"
    "fl_greater (cs_log_L (fst (A k))) (relaxed_constraint thr c0 k)"
    unfolding k' A_def by (auto simp del: relaxed_constraint.simps)
  with pos before dn gs show ?thesis unfolding A_def by blast
qed

lemma get_sample_raises:
  assumes "efficiency_threshold self = 0"
  shows "get_sample env sample_U self key c0 live_points pd calls = Some (Inl ZeroDivisionError)"
  unfolding get_sample_def
  by (subst while_loop_raising.simps)
    (simp add: init_carry_state_def split2_def get_sample_body_def forward_call_def
      py_truediv_def assms Let_def)

lemma get_sample_returns:
  assumes "get_sample env sample_U self key c0 live_points pd calls = Some (Inr (s, calls'))"
  shows "\<exists>thr k. py_truediv 1 (efficiency_threshold self) = Inr thr \<and> 0 < k
     \<and> (\<forall>j<k. \<not> cs_done (fst (attempt env sample_U self key c0 pd calls j)))
     \<and> cs_done (fst (attempt env sample_U self key c0 pd calls k))
     \<and> s = \<lparr>rs_point_U = cs_U (fst (attempt env sample_U self key c0 pd calls k)),
             rs_log_L_constraint = relaxed_constraint thr c0 k,
             rs_log_L = cs_log_L (fst (attempt env sample_U self key c0 pd calls k)),
             rs_num_likelihood_evaluations = int k,
             rs_num_slices = 0, rs_iid = True\<rparr>
     \<and> calls' = calls + k
     \<and> cs_log_L (fst (attempt env sample_U self key c0 pd calls k))
         = model_forward env (cs_U (fst (attempt env sample_U self key c0 pd calls k)))
     \<and> fl_greater (cs_log_L (fst (attempt env sample_U self key c0 pd calls k)))
         (relaxed_constraint thr c0 k)"
proof -
  have "efficiency_threshold self \<noteq> 0"
  proof
    assume "efficiency_threshold self = 0"
    from get_sample_raises [OF this, of env sample_U key c0 live_points pd calls] assms
    show False by simp
  qed
  then have thr: "py_truediv 1 (efficiency_threshold self) = Inr (1 / efficiency_threshold self)"
    by (simp add: py_truediv_def)
  define thr where "thr = 1 / efficiency_threshold self"
  define c where "c = (\<lambda>(s :: 'a CarryState, calls :: nat). \<not> cs_done s)"
  define f where "f = get_sample_step env sample_U self pd"
  define init where "init = (init_carry_state env sample_U key c0 pd, calls)"
  define A where "A = attempt env sample_U self key c0 pd calls"
  have A: "\<And>j. (f ^^ j) init = A j" by (simp add: attempt_def A_def f_def init_def)
  have c: "\<And>x. c x = (\<not> cs_done (fst x))" by (simp add: c_def case_prod_beta)
  have b: "\<And>x. get_sample_body env sample_U self pd x = Inr (f x)"
    unfolding f_def by (rule get_sample_body_Inr [OF thr])
  from assms obtain r where r: "while_loop_raising c (get_sample_body env sample_U self pd) init
      = Some r"
    unfolding get_sample_def c_def [symmetric] init_def [symmetric]
    by (cases "while_loop_raising c (get_sample_body env sample_U self pd) init") auto
  from while_loop_raising_result [where b = "get_sample_body env sample_U self pd" and f = f
      and c = c and s = init and r = r] b r
  obtain k where k: "r = Inr ((f ^^ k) init)" "\<not> c ((f ^^ k) init)" "\<forall>i<k. c ((f ^^ i) init)"
    by blast
  from k(2) have dn: "cs_done (fst (A k))" unfolding A c by simp
  from k(3) have before: "\<forall>j<k. \<not> cs_done (fst (A j))" unfolding A c by simp
  have "\<not> cs_done (fst (A 0))"
    by (simp add: A_def attempt_0 init_carry_state_def split2_def)
  with dn have pos: "0 < k" by (cases k) auto
  then obtain k' where k': "k = Suc k'" by (cases k) auto
  from attempt_inv [OF thr, of env sample_U key c0 pd calls k]
  have inv: "cs_num_likelihood_evals (fst (A k)) = int k" "snd (A k) = calls + k"
    "cs_log_L_constraint (fst (A k)) = relaxed_constraint thr c0 k"
    unfolding A_def thr_def by simp_all
  from r k(1) have loop: "while_loop_raising c (get_sample_body env sample_U self pd) init
          = Some (Inr (A k))" unfolding A by simp
  from assms have gs: "s = \<lparr>rs_point_U = cs_U (fst (A k)),
                     rs_log_L_constraint = relaxed_constraint thr c0 k,
                     rs_log_L = cs_log_L (fst (A k)),
                     rs_num_likelihood_evaluations = int k,
                     rs_num_slices = 0, rs_iid = True\<rparr>" "calls' = calls + k"
    unfolding get_sample_def c_def [symmetric] init_def [symmetric] loop
    using inv by (simp_all add: case_prod_beta)
  from attempt_done [OF thr, of env sample_U key c0 pd calls k'] dn
  have "cs_log_L (fst (A k)) = model_forward env (cs_U (fst (A k)))"
    "fl_greater (cs_log_L (fst (A k))) (relaxed_constraint thr c0 k)"
    unfolding k' A_def thr_def by (auto simp del: relaxed_constraint.simps)
  with pos before dn gs thr show ?thesis unfolding A_def thr_def by blast
qed

lemma run_me:
  "get_sample env1 centre_U sampler_me 0 (Fin (11 / 20)) () () 0 =
     Some (Inr (\<lparr>rs_point_U = [Fin (1 / 2)], rs_log_L_constraint = Fin (9 / 20),
                 rs_log_L = Fin (1 / 2), rs_num_likelihood_evaluations = 3,
                 rs_num_slices = 0, rs_iid = True\<rparr>, 3))"
  apply (simp add: get_sample_def init_carry_state_def sampler_me_def split2_def centre_U_def
      env1_def env0_def)
  apply (subst while_loop_raising.simps, simp add: get_sample_body_def py_truediv_def split2_def
      forward_call_def Let_def where_sel_def fl_greater_def fl_sub_def centre_U_def
      coord_forward_def)+
  done

lemma threshold_me: "py_truediv 1 (efficiency_threshold sampler_me) = Inr 2"
  by (simp add: py_truediv_def sampler_me_def)

lemma bounded_below_me: "bounded_below env1 centre_U () (1 / 2)"
  unfolding bounded_below_def
  by (intro allI exI [of _ "1 / 2"]) (simp add: env1_def centre_U_def coord_forward_def)

section \<open>Claims\<close>

text \<open>
  C5.  The bracket of a slice contains the origin, \<open>left \<le> 0 \<le> right\<close>, throughout a
  slice proposal.  First, the bounds computed by \<open>slice_bounds\<close> satisfy it for every
  point of at least one dimension and every direction of the same shape (inside the
  unit cube or not).  Second, \<open>shrink_interval\<close> preserves it for every rejected \<open>t\<close>
  that is a number or NaN, without the midpoint shrink and with it when the factor
  \<open>alpha\<close> lies in \<open>[0, 1)\<close>.  Third, when the uniform draws are never infinite, every
  state that the loop of \<open>new_proposal\<close> reaches from its initial carry satisfies it.
\<close>

theorem slice_bracket_invariant:
  "(point \<noteq> [] \<and> length direction = length point \<longrightarrow>
      (\<exists>l r. slice_bounds point direction = Inr (l, r) \<and> fl_le l (Fin 0) \<and> fl_le (Fin 0) r))
   \<and> (fl_le left (Fin 0) \<and> fl_le (Fin 0) right \<and> t \<noteq> PInf \<and> t \<noteq> NInf
        \<and> (ms \<longrightarrow> (\<exists>a. random_uniform (env :: 'k env) skey (Fin 0) (Fin 1) = Fin a \<and> 0 \<le> a \<and> a < 1)) \<longrightarrow>
      fl_le (fst (shrink_interval env skey t left right lp lc lz ms)) (Fin 0)
      \<and> fl_le (Fin 0) (snd (shrink_interval env skey t left right lp lc lz ms)))
   \<and> (draws_ok env \<and> new_proposal_init env key seed_point pf gs calls = Inr init \<longrightarrow>
      bracket_ok ((new_proposal_body env seed_point ms log_L_c ^^ k) init))"
proof (intro conjI impI)
  assume "point \<noteq> [] \<and> length direction = length point"
  then have "zip point direction \<noteq> []" by (cases point; cases direction) auto
  then show "\<exists>l r. slice_bounds point direction = Inr (l, r) \<and> fl_le l (Fin 0) \<and> fl_le (Fin 0) r"
    by (rule slice_bounds_zip)
next
  assume h: "fl_le left (Fin 0) \<and> fl_le (Fin 0) right \<and> t \<noteq> PInf \<and> t \<noteq> NInf
        \<and> (ms \<longrightarrow> (\<exists>a. random_uniform env skey (Fin 0) (Fin 1) = Fin a \<and> 0 \<le> a \<and> a < 1))"
  have "fl_le (fst (shrink_interval env skey t left right lp lc lz ms)) (Fin 0)
      \<and> fl_le (Fin 0) (snd (shrink_interval env skey t left right lp lc lz ms))"
    using shrink_interval_bracket [of left right t ms env skey lp lc lz] h
    by (cases "shrink_interval env skey t left right lp lc lz ms") auto
  then show "fl_le (fst (shrink_interval env skey t left right lp lc lz ms)) (Fin 0)"
    and "fl_le (Fin 0) (snd (shrink_interval env skey t left right lp lc lz ms))" by simp_all
next
  assume h: "draws_ok env \<and> new_proposal_init env key seed_point pf gs calls = Inr init"
  let ?P = "\<lambda>x :: 'k Carry \<times> nat. bracket_ok x \<and> carry_t (fst x) \<noteq> PInf \<and> carry_t (fst x) \<noteq> NInf"
  have "?P ((new_proposal_body env seed_point ms log_L_c ^^ k) init)"
  proof (rule funpow_invariant [where P = ?P])
    show "?P init" using new_proposal_init_bracket [OF h [THEN conjunct2] h [THEN conjunct1]] .
  next
    fix x assume "?P x"
    then show "?P (new_proposal_body env seed_point ms log_L_c x)"
      by (rule new_proposal_body_bracket [OF h [THEN conjunct1]])
  qed
  then show "bracket_ok ((new_proposal_body env seed_point ms log_L_c ^^ k) init)" by simp
qed

theorem slice_bracket_invariant_witness:
  "(\<exists>l r. slice_bounds [Fin (1 / 3)] [Fin 1] = Inr (l, r) \<and> fl_le l (Fin 0) \<and> fl_le (Fin 0) r)
   \<and> fl_le (fst (shrink_interval env0 0 (Fin (1 / 6)) (Fin (- (1 / 3))) (Fin (2 / 3))
                   (Fin 0) (Fin (1 / 2)) (Fin 1) True)) (Fin 0)
   \<and> fl_le (Fin 0) (snd (shrink_interval env0 0 (Fin (1 / 6)) (Fin (- (1 / 3))) (Fin (2 / 3))
                   (Fin 0) (Fin (1 / 2)) (Fin 1) True))
   \<and> bracket_ok ((new_proposal_body env0 seed0 True (Fin (1 / 2)) ^^ 2)
        (\<lparr>carry_key = 1, carry_direction = [Fin 1], carry_left = Fin (- (1 / 3)),
          carry_right = Fin (2 / 3), carry_t = Fin (1 / 6), carry_point_U = [Fin (1 / 2)],
          carry_log_L = Fin 0, carry_num_likelihood_evaluations = 0\<rparr>, 1))"
proof -
  have a: "\<exists>a. random_uniform env0 0 (Fin 0) (Fin 1) = Fin a \<and> 0 \<le> a \<and> a < 1"
    by (rule exI [of _ "1 / 2"]) (simp add: env0_def midpoint_uniform_def)
  have b: "fl_le (Fin (- (1 / 3))) (Fin 0)" "fl_le (Fin 0) (Fin (2 / 3))"
    by (simp_all add: fl_le_def)
  show ?thesis
    using slice_bracket_invariant [where point = "[Fin (1 / 3)]" and direction = "[Fin 1]"
        and left = "Fin (- (1 / 3))" and right = "Fin (2 / 3)" and t = "Fin (1 / 6)" and ms = True
        and env = env0 and skey = 0 and lp = "Fin 0" and lc = "Fin (1 / 2)" and lz = "Fin 1"
        and key = 0 and seed_point = seed0 and pf = True and gs = False and calls = 0
        and init = "(\<lparr>carry_key = 1, carry_direction = [Fin 1], carry_left = Fin (- (1 / 3)),
          carry_right = Fin (2 / 3), carry_t = Fin (1 / 6), carry_point_U = [Fin (1 / 2)],
          carry_log_L = Fin 0, carry_num_likelihood_evaluations = 0\<rparr>, 1)"
        and log_L_c = "Fin (1 / 2)" and k = 2]
      a b draws_ok_env0 init_env0
    by simp
qed

text \<open>
  C6.  Constructing the sampler raises exactly when \<open>num_slices < 1\<close>,
  \<open>num_phantom_save < 0\<close>, \<open>num_phantom_save \<ge> num_slices\<close> or the bracket mode is
  not the perfect one; otherwise it returns the sampler with the fields it was given.
\<close>

theorem init_raises_iff_invalid:
  "((\<exists>e. UniDimSliceSampler_init n p ms pf gs = Inl e) \<longleftrightarrow> (n < 1 \<or> p < 0 \<or> p \<ge> n \<or> \<not> pf))
   \<and> ((\<exists>self. UniDimSliceSampler_init n p ms pf gs = Inr self) \<longleftrightarrow>
        \<not> (n < 1 \<or> p < 0 \<or> p \<ge> n \<or> \<not> pf))
   \<and> (\<forall>self. UniDimSliceSampler_init n p ms pf gs = Inr self \<longrightarrow>
        self = \<lparr>num_slices = n, num_phantom_save = p, midpoint_shrink = ms, perfect = pf,
                 gradient_slice = gs\<rparr>)"
  by (auto simp: UniDimSliceSampler_init_def)

theorem init_raises_iff_invalid_witness:
  "UniDimSliceSampler_init 5 2 True True False = Inr sampler5
   \<and> UniDimSliceSampler_init 5 5 True True False = Inl ValueError
   \<and> UniDimSliceSampler_init 5 2 True False False = Inl ValueError"
  using init_raises_iff_invalid [of 5 2 True True False]
    init_raises_iff_invalid [of 5 5 True True False]
    init_raises_iff_invalid [of 5 2 True False False]
  by (simp add: UniDimSliceSampler_init_def sampler5_def)

text \<open>
  C9.  The bounds returned by \<open>shrink_interval\<close> do not depend on its three
  likelihood arguments: two calls that agree on the key, \<open>t\<close>, the bounds and the
  shrink mode return the same bounds whatever the likelihoods are.
\<close>

theorem shrink_interval_ignores_likelihoods:
  "shrink_interval env key t left right log_L_proposal1 log_L_c1 log_L0_1 ms =
   shrink_interval env key t left right log_L_proposal2 log_L_c2 log_L0_2 ms"
  by (simp add: shrink_interval_def)

text \<open>
  C10.  \<open>post_process\<close> returns the one-entry tuple that holds the sample collection it
  was given, whatever the sampler state and the \<open>perfect\<close> flag are.
\<close>

theorem post_process_returns_collection:
  "post_process self sample_collection sampler_state = SamplerState sample_collection"
  by (simp add: post_process_def)

text \<open>
  C7.  Take a sampler constructed with \<open>num_slices = n\<close> and \<open>num_phantom_save = p\<close>.
  From a seed point in the unit cube, with a library whose draws let every slice step
  end, \<open>get_sample_from_seed\<close> returns.  Every call that returns, under these
  conditions or not, gives exactly \<open>p\<close> phantom samples.  With \<open>cum\<close> the list of the
  \<open>n\<close> chain states (entry \<open>j - 1\<close> is the output of proposal \<open>j\<close>), phantom \<open>i\<close> is
  entry \<open>n - 1 - p + i\<close>, the output of proposal \<open>n - p + i\<close> (proposals \<open>n - p\<close> to
  \<open>n - 1\<close>), and the terminal sample is the last entry, the output of proposal \<open>n\<close>,
  a position that the phantoms leave out; only the count fields are replaced.
\<close>

theorem phantom_retention:
  assumes "UniDimSliceSampler_init n p ms pf gs = Inr self"
  shows "(draws_progress env c \<and> directions_ok env \<and> 0 < finfo_eps env
            \<and> in_unit_cube (U0 seed_point) \<longrightarrow>
          (\<exists>final phantoms calls'.
             get_sample_from_seed env self key seed_point log_L_c st calls
               = Some (Inr ((final, phantoms), calls'))))
       \<and> (\<forall>final phantoms calls'.
            get_sample_from_seed env self key seed_point log_L_c st calls
              = Some (Inr ((final, phantoms), calls')) \<longrightarrow>
            (\<exists>raw cum. cumulative_op_static (propose_op env self log_L_c)
                \<lparr>U_sample = U0 seed_point, log_L_constraint = log_L_c, log_L = log_L0 seed_point,
                 num_likelihood_evaluations = 0\<rparr>
                (random_split env key (nat n)) calls = Some (Inr ((raw, cum), calls'))
              \<and> length cum = nat n
              \<and> length phantoms = nat p
              \<and> (\<forall>i<nat p. \<exists>q. phantoms ! i
                     = (cum ! (nat n - 1 - nat p + i))\<lparr>num_likelihood_evaluations := q\<rparr>)
              \<and> (\<exists>q. final = (cum ! (nat n - 1))\<lparr>num_likelihood_evaluations := q\<rparr>)))"
proof (intro conjI impI allI)
  assume "draws_progress env c \<and> directions_ok env \<and> 0 < finfo_eps env
            \<and> in_unit_cube (U0 seed_point)"
  then have "draws_progress env c" "directions_ok env" "0 < finfo_eps env"
    "in_unit_cube (U0 seed_point)" by simp_all
  from get_sample_from_seed_total [OF assms this]
  show "\<exists>final phantoms calls'.
             get_sample_from_seed env self key seed_point log_L_c st calls
               = Some (Inr ((final, phantoms), calls'))" .
next
  fix final phantoms calls'
  assume "get_sample_from_seed env self key seed_point log_L_c st calls
              = Some (Inr ((final, phantoms), calls'))"
  from phantoms_of_chain [OF assms this]
  show "\<exists>raw cum. cumulative_op_static (propose_op env self log_L_c)
                \<lparr>U_sample = U0 seed_point, log_L_constraint = log_L_c, log_L = log_L0 seed_point,
                 num_likelihood_evaluations = 0\<rparr>
                (random_split env key (nat n)) calls = Some (Inr ((raw, cum), calls'))
              \<and> length cum = nat n
              \<and> length phantoms = nat p
              \<and> (\<forall>i<nat p. \<exists>q. phantoms ! i
                     = (cum ! (nat n - 1 - nat p + i))\<lparr>num_likelihood_evaluations := q\<rparr>)
              \<and> (\<exists>q. final = (cum ! (nat n - 1))\<lparr>num_likelihood_evaluations := q\<rparr>)" .
qed

theorem phantom_retention_witness:
  "\<exists>final phantoms calls' raw cum.
           get_sample_from_seed env2 sampler5 0 seed1 (Fin (7 / 10)) (SamplerState ()) 0
             = Some (Inr ((final, phantoms), calls'))
         \<and> cumulative_op_static (propose_op env2 sampler5 (Fin (7 / 10)))
              \<lparr>U_sample = U0 seed1, log_L_constraint = Fin (7 / 10), log_L = log_L0 seed1,
               num_likelihood_evaluations = 0\<rparr>
              (random_split env2 0 (nat 5)) 0 = Some (Inr ((raw, cum), calls'))
         \<and> length cum = 5
         \<and> length phantoms = 2
         \<and> (\<forall>i<2. \<exists>q. phantoms ! i = (cum ! (2 + i))\<lparr>num_likelihood_evaluations := q\<rparr>)
         \<and> (\<exists>q. final = (cum ! 4)\<lparr>num_likelihood_evaluations := q\<rparr>)"
proof -
  note t = phantom_retention [OF init5, where env = env2 and c = "3 / 4" and seed_point = seed1
      and key = 0 and log_L_c = "Fin (7 / 10)" and st = "SamplerState ()" and calls = 0]
  from t [THEN conjunct1] draws_progress_env2 directions_ok_env2 eps_env2 cube_seed1
  obtain final phantoms calls' where
    r: "get_sample_from_seed env2 sampler5 0 seed1 (Fin (7 / 10)) (SamplerState ()) 0
             = Some (Inr ((final, phantoms), calls'))" by blast
  from t [THEN conjunct2, rule_format, OF r] r show ?thesis by simp
qed

text \<open>
  C3.  Under the same conditions \<open>get_sample_from_seed\<close> returns.  For every call that
  returns, with \<open>total\<close> the count accumulated by the chain (the count field of the last
  chain state \<open>raw\<close>), the terminal sample carries
  \<open>total - floor (total / (num_phantom_save + 1)) * num_phantom_save\<close> and every phantom
  carries \<open>floor (total / (num_phantom_save + 1))\<close>.
\<close>

theorem count_apportionment:
  assumes "UniDimSliceSampler_init n p ms pf gs = Inr self"
  shows "(draws_progress env c \<and> directions_ok env \<and> 0 < finfo_eps env
            \<and> in_unit_cube (U0 seed_point) \<longrightarrow>
          (\<exists>final phantoms calls'.
             get_sample_from_seed env self key seed_point log_L_c st calls
               = Some (Inr ((final, phantoms), calls'))))
       \<and> (\<forall>final phantoms calls'.
            get_sample_from_seed env self key seed_point log_L_c st calls
              = Some (Inr ((final, phantoms), calls')) \<longrightarrow>
            (\<exists>raw cum. cumulative_op_static (propose_op env self log_L_c)
                \<lparr>U_sample = U0 seed_point, log_L_constraint = log_L_c, log_L = log_L0 seed_point,
                 num_likelihood_evaluations = 0\<rparr>
                (random_split env key (nat n)) calls = Some (Inr ((raw, cum), calls'))
              \<and> num_likelihood_evaluations final =
                  num_likelihood_evaluations raw
                  - \<lfloor>real_of_int (num_likelihood_evaluations raw) / real_of_int (p + 1)\<rfloor> * p
              \<and> (\<forall>ph\<in>set phantoms. num_likelihood_evaluations ph =
                  \<lfloor>real_of_int (num_likelihood_evaluations raw) / real_of_int (p + 1)\<rfloor>)))"
proof (intro conjI impI allI)
  assume "draws_progress env c \<and> directions_ok env \<and> 0 < finfo_eps env
            \<and> in_unit_cube (U0 seed_point)"
  then have "draws_progress env c" "directions_ok env" "0 < finfo_eps env"
    "in_unit_cube (U0 seed_point)" by simp_all
  from get_sample_from_seed_total [OF assms this]
  show "\<exists>final phantoms calls'.
             get_sample_from_seed env self key seed_point log_L_c st calls
               = Some (Inr ((final, phantoms), calls'))" .
next
  fix final phantoms calls'
  assume "get_sample_from_seed env self key seed_point log_L_c st calls
              = Some (Inr ((final, phantoms), calls'))"
  from counts_of_chain [OF assms this]
  show "\<exists>raw cum. cumulative_op_static (propose_op env self log_L_c)
                \<lparr>U_sample = U0 seed_point, log_L_constraint = log_L_c, log_L = log_L0 seed_point,
                 num_likelihood_evaluations = 0\<rparr>
                (random_split env key (nat n)) calls = Some (Inr ((raw, cum), calls'))
              \<and> num_likelihood_evaluations final =
                  num_likelihood_evaluations raw
                  - \<lfloor>real_of_int (num_likelihood_evaluations raw) / real_of_int (p + 1)\<rfloor> * p
              \<and> (\<forall>ph\<in>set phantoms. num_likelihood_evaluations ph =
                  \<lfloor>real_of_int (num_likelihood_evaluations raw) / real_of_int (p + 1)\<rfloor>)" .
qed

theorem count_apportionment_witness:
  "\<exists>final phantoms calls' raw cum.
           get_sample_from_seed env2 sampler5 0 seed1 (Fin (7 / 10)) (SamplerState ()) 0
             = Some (Inr ((final, phantoms), calls'))
         \<and> cumulative_op_static (propose_op env2 sampler5 (Fin (7 / 10)))
              \<lparr>U_sample = U0 seed1, log_L_constraint = Fin (7 / 10), log_L = log_L0 seed1,
               num_likelihood_evaluations = 0\<rparr>
              (random_split env2 0 (nat 5)) 0 = Some (Inr ((raw, cum), calls'))
         \<and> num_likelihood_evaluations final =
              num_likelihood_evaluations raw
              - \<lfloor>real_of_int (num_likelihood_evaluations raw) / 3\<rfloor> * 2
         \<and> (\<forall>ph\<in>set phantoms. num_likelihood_evaluations ph =
              \<lfloor>real_of_int (num_likelihood_evaluations raw) / 3\<rfloor>)"
proof -
  note t = count_apportionment [OF init5, where env = env2 and c = "3 / 4" and seed_point = seed1
      and key = 0 and log_L_c = "Fin (7 / 10)" and st = "SamplerState ()" and calls = 0]
  from t [THEN conjunct1] draws_progress_env2 directions_ok_env2 eps_env2 cube_seed1
  obtain final phantoms calls' where
    r: "get_sample_from_seed env2 sampler5 0 seed1 (Fin (7 / 10)) (SamplerState ()) 0
             = Some (Inr ((final, phantoms), calls'))" by blast
  from t [THEN conjunct2, rule_format, OF r] r show ?thesis by simp
qed

text \<open>
  C2.  Every sample that the sampler emits is meant to lie above the constraint, or on
  it when the seed of its slice step does.  The code emits samples that do not.  With
  the likelihood that is \<open>1\<close> at the seed \<open>1/3\<close> and \<open>0\<close> elsewhere, the constraint
  \<open>1/2\<close> and draws at the midpoint of the bracket, no proposal is accepted; after 22
  shrinks the bracket is no wider than twice the unit roundoff, the loop ends, and the
  last rejected proposal is emitted: its likelihood is \<open>0\<close>, below the constraint,
  while the seed (likelihood \<open>1\<close>) is not on the constraint.  With two slice steps and
  one phantom, the phantom and the terminal sample are both such samples.
\<close>

theorem emitted_sample_below_constraint:
  "get_sample_from_seed env0 sampler1 0 seed0 (Fin (1 / 2)) (SamplerState ()) 0 =
     Some (Inr ((\<lparr>U_sample = [Fin (2796203 / 8388608)], log_L_constraint = Fin (1 / 2),
                  log_L = Fin 0, num_likelihood_evaluations = 22\<rparr>, []), 23))
   \<and> get_sample_from_seed env0 sampler2 0 seed0 (Fin (1 / 2)) (SamplerState ()) 0 =
     Some (Inr ((\<lparr>U_sample = [Fin (2796203 / 8388608)], log_L_constraint = Fin (1 / 2),
                  log_L = Fin 0, num_likelihood_evaluations = 22\<rparr>,
                [\<lparr>U_sample = [Fin (2796203 / 8388608)], log_L_constraint = Fin (1 / 2),
                   log_L = Fin 0, num_likelihood_evaluations = 22\<rparr>]), 46))
   \<and> \<not> accepted (Fin (1 / 2)) (log_L0 seed0) (Fin 0)
   \<and> \<not> accepted (Fin (1 / 2)) (Fin 0) (Fin 0)"
  using run22 run46 by (simp add: accepted_def fl_greater_def fl_eq_def seed0_def)

text \<open>
  C1.  The counts that a call reports are meant to add up to the number of model
  evaluations it performs.  They do not: with one slice, no phantom and the constraint
  \<open>-inf\<close>, the first proposal is accepted at once; the call has evaluated the model
  once (the state, which counts the evaluations, goes from \<open>0\<close> to \<open>1\<close>) and reports
  \<open>0\<close> evaluations.
\<close>

theorem evaluation_count_failing_input:
  "get_sample_from_seed env1 sampler1 0 seed1 NInf (SamplerState ()) 0 =
     Some (Inr ((\<lparr>U_sample = [Fin (1 / 2)], log_L_constraint = NInf,
                  log_L = Fin (1 / 2), num_likelihood_evaluations = 0\<rparr>, []), 1))"
  by (rule run1)

text \<open>
  C4.  Take a sampler whose threshold \<open>1 / efficiency_threshold\<close> is defined.  Attempts
  are counted from \<open>1\<close>, the count including the attempt under way, as
  \<open>num_likelihood_evals\<close> does.  Every attempt whose number exceeds the threshold lowers
  the constraint by \<open>0.1\<close> before it tests the likelihood against it, and every other
  attempt leaves it as it is, so that the constraint in force at attempt \<open>j\<close> is
  \<open>relaxed_constraint threshold c0 j\<close>; for a finite \<open>c0 = c\<close> that is \<open>c\<close> minus \<open>0.1\<close>
  times the number of attempts up to \<open>j\<close> whose number exceeds the threshold.  When the
  constraint is a number or \<open>-inf\<close> and the likelihood of the proposed points is a number
  bounded below, \<open>get_sample\<close> returns.  Every call that returns, under these conditions
  or not, has made some number \<open>k \<ge> 1\<close> of attempts, of which attempts \<open>1\<close> to \<open>k - 1\<close>
  were rejected and attempt \<open>k\<close> was accepted under its own constraint; the sample
  returned carries that constraint, the constraint of attempt \<open>k\<close>, and not the original
  one.
\<close>

theorem backoff_policy:
  assumes "py_truediv 1 (efficiency_threshold self) = Inr threshold"
  shows "(\<forall>j. cs_log_L_constraint (fst (attempt env sample_U self key c0 pd calls (Suc j))) =
            (if real (Suc j) > threshold
             then fl_sub (cs_log_L_constraint (fst (attempt env sample_U self key c0 pd calls j)))
                    (Fin (1 / 10))
             else cs_log_L_constraint (fst (attempt env sample_U self key c0 pd calls j)))
          \<and> cs_done (fst (attempt env sample_U self key c0 pd calls (Suc j))) =
              fl_greater (cs_log_L (fst (attempt env sample_U self key c0 pd calls (Suc j))))
                (cs_log_L_constraint (fst (attempt env sample_U self key c0 pd calls (Suc j))))
          \<and> cs_log_L_constraint (fst (attempt env sample_U self key c0 pd calls j)) =
              relaxed_constraint threshold c0 j)
     \<and> (\<forall>c j. c0 = Fin c \<longrightarrow>
           relaxed_constraint threshold c0 j =
             Fin (c - real (card {i \<in> {1..j}. real i > threshold}) / 10))
     \<and> ((c0 = NInf \<or> isfinite c0) \<and> bounded_below env sample_U pd m \<longrightarrow>
           (\<exists>s calls'. get_sample env sample_U self key c0 live_points pd calls
                          = Some (Inr (s, calls'))))
     \<and> (\<forall>s calls'. get_sample env sample_U self key c0 live_points pd calls
                       = Some (Inr (s, calls')) \<longrightarrow>
           (\<exists>k. 0 < k
              \<and> (\<forall>j<k. \<not> cs_done (fst (attempt env sample_U self key c0 pd calls j)))
              \<and> cs_done (fst (attempt env sample_U self key c0 pd calls k))
              \<and> s = \<lparr>rs_point_U = cs_U (fst (attempt env sample_U self key c0 pd calls k)),
                      rs_log_L_constraint = relaxed_constraint threshold c0 k,
                      rs_log_L = cs_log_L (fst (attempt env sample_U self key c0 pd calls k)),
                      rs_num_likelihood_evaluations = int k,
                      rs_num_slices = 0, rs_iid = True\<rparr>
              \<and> calls' = calls + k
              \<and> cs_log_L (fst (attempt env sample_U self key c0 pd calls k))
                  = model_forward env (cs_U (fst (attempt env sample_U self key c0 pd calls k)))
              \<and> fl_greater (cs_log_L (fst (attempt env sample_U self key c0 pd calls k)))
                  (relaxed_constraint threshold c0 k)))"
proof (intro conjI allI impI)
  fix j
  from attempt_inv [OF assms, of env sample_U key c0 pd calls j]
  show r: "cs_log_L_constraint (fst (attempt env sample_U self key c0 pd calls j)) =
      relaxed_constraint threshold c0 j" by simp
  from attempt_inv [OF assms, of env sample_U key c0 pd calls "Suc j"]
  have s: "cs_log_L_constraint (fst (attempt env sample_U self key c0 pd calls (Suc j))) =
      relaxed_constraint threshold c0 (Suc j)" by blast
  show "cs_log_L_constraint (fst (attempt env sample_U self key c0 pd calls (Suc j))) =
            (if real (Suc j) > threshold
             then fl_sub (cs_log_L_constraint (fst (attempt env sample_U self key c0 pd calls j)))
                    (Fin (1 / 10))
             else cs_log_L_constraint (fst (attempt env sample_U self key c0 pd calls j)))"
    unfolding s r by simp
  from attempt_done [OF assms, of env sample_U key c0 pd calls j]
  show "cs_done (fst (attempt env sample_U self key c0 pd calls (Suc j))) =
      fl_greater (cs_log_L (fst (attempt env sample_U self key c0 pd calls (Suc j))))
        (cs_log_L_constraint (fst (attempt env sample_U self key c0 pd calls (Suc j))))"
    unfolding s by blast
next
  fix c j
  assume "c0 = Fin c"
  then show "relaxed_constraint threshold c0 j =
      Fin (c - real (card {i \<in> {1..j}. real i > threshold}) / 10)"
    by (simp only: relaxed_constraint_closed_form)
next
  assume "(c0 = NInf \<or> isfinite c0) \<and> bounded_below env sample_U pd m"
  then have h: "c0 = NInf \<or> isfinite c0" "bounded_below env sample_U pd m" by simp_all
  from get_sample_total [OF assms h, where key = key and live_points = live_points
      and calls = calls]
  show "\<exists>s calls'. get_sample env sample_U self key c0 live_points pd calls
                          = Some (Inr (s, calls'))" by blast
next
  fix s calls'
  assume "get_sample env sample_U self key c0 live_points pd calls = Some (Inr (s, calls'))"
  from get_sample_returns [OF this] assms
  show "\<exists>k. 0 < k
              \<and> (\<forall>j<k. \<not> cs_done (fst (attempt env sample_U self key c0 pd calls j)))
              \<and> cs_done (fst (attempt env sample_U self key c0 pd calls k))
              \<and> s = \<lparr>rs_point_U = cs_U (fst (attempt env sample_U self key c0 pd calls k)),
                      rs_log_L_constraint = relaxed_constraint threshold c0 k,
                      rs_log_L = cs_log_L (fst (attempt env sample_U self key c0 pd calls k)),
                      rs_num_likelihood_evaluations = int k,
                      rs_num_slices = 0, rs_iid = True\<rparr>
              \<and> calls' = calls + k
              \<and> cs_log_L (fst (attempt env sample_U self key c0 pd calls k))
                  = model_forward env (cs_U (fst (attempt env sample_U self key c0 pd calls k)))
              \<and> fl_greater (cs_log_L (fst (attempt env sample_U self key c0 pd calls k)))
                  (relaxed_constraint threshold c0 k)" by auto
qed

theorem backoff_policy_witness:
  "get_sample env1 centre_U sampler_me 0 (Fin (11 / 20)) () () 0 =
     Some (Inr (\<lparr>rs_point_U = [Fin (1 / 2)], rs_log_L_constraint = Fin (9 / 20),
                 rs_log_L = Fin (1 / 2), rs_num_likelihood_evaluations = 3,
                 rs_num_slices = 0, rs_iid = True\<rparr>, 3))
   \<and> relaxed_constraint 2 (Fin (11 / 20)) 3 = Fin (9 / 20)
   \<and> \<not> cs_done (fst (attempt env1 centre_U sampler_me 0 (Fin (11 / 20)) () 0 2))
   \<and> cs_done (fst (attempt env1 centre_U sampler_me 0 (Fin (11 / 20)) () 0 3))
   \<and> fl_greater (cs_log_L (fst (attempt env1 centre_U sampler_me 0 (Fin (11 / 20)) () 0 3)))
       (Fin (9 / 20))"
proof -
  note t = backoff_policy [OF threshold_me, where env = env1 and sample_U = centre_U
      and key = 0 and ?c0.0 = "Fin (11 / 20)" and live_points = "()" and pd = "()" and calls = 0
      and m = "1 / 2"]
  have fin: "Fin (11 / 20) = NInf \<or> isfinite (Fin (11 / 20))" by simp
  from t [THEN conjunct2, THEN conjunct2, THEN conjunct1] fin bounded_below_me
  obtain s calls' where
    g: "get_sample env1 centre_U sampler_me 0 (Fin (11 / 20)) () () 0 = Some (Inr (s, calls'))"
    by blast
  from t [THEN conjunct2, THEN conjunct2, THEN conjunct2, rule_format, OF g]
  obtain k where k: "0 < k"
    "\<forall>j<k. \<not> cs_done (fst (attempt env1 centre_U sampler_me 0 (Fin (11 / 20)) () 0 j))"
    "cs_done (fst (attempt env1 centre_U sampler_me 0 (Fin (11 / 20)) () 0 k))"
    "s = \<lparr>rs_point_U = cs_U (fst (attempt env1 centre_U sampler_me 0 (Fin (11 / 20)) () 0 k)),
          rs_log_L_constraint = relaxed_constraint 2 (Fin (11 / 20)) k,
          rs_log_L = cs_log_L (fst (attempt env1 centre_U sampler_me 0 (Fin (11 / 20)) () 0 k)),
          rs_num_likelihood_evaluations = int k,
          rs_num_slices = 0, rs_iid = True\<rparr>"
    "fl_greater (cs_log_L (fst (attempt env1 centre_U sampler_me 0 (Fin (11 / 20)) () 0 k)))
       (relaxed_constraint 2 (Fin (11 / 20)) k)"
    by blast
  from g k(4) have k3: "k = 3" unfolding run_me by simp
  from g k(4) have r: "relaxed_constraint 2 (Fin (11 / 20)) k = Fin (9 / 20)"
    unfolding run_me by simp
  from k(2) have "\<not> cs_done (fst (attempt env1 centre_U sampler_me 0 (Fin (11 / 20)) () 0 2))"
    unfolding k3 by simp
  with k(3,5) r run_me show ?thesis unfolding k3 by simp
qed

end
